theory Spec2Isabelle
  imports Main "HOL-Library.Word" "HOL-Library.List_Lexorder" "HOL-Library.Char_ord"
begin

unbundle bit_operations_syntax

section \<open>Common ground: panics, pointers and the node arena\<close>

text \<open>
  A Go panic is a value of type \<open>error\<close>: the three run-time panics the code can
  meet, and \<open>Panic msg\<close> for an explicit \<open>panic(msg)\<close>. A computation that contains the pointer-chasing
  loop of \<open>narrowDownBound\<close> has type \<open>(error + 'a) option\<close>: \<open>None\<close> means that the
  loop never returns, \<open>Some (Inl e)\<close> is a panic, \<open>Some (Inr x)\<close> a normal return.
\<close>

datatype error =
    NilDereference
  | IndexOutOfRange
  | SliceBoundsOutOfRange
  | Panic string

definition bindR :: "(error + 'a) option \<Rightarrow> ('a \<Rightarrow> (error + 'b) option) \<Rightarrow> (error + 'b) option" where
  "bindR m f = (case m of None \<Rightarrow> None | Some (Inl e) \<Rightarrow> Some (Inl e) | Some (Inr x) \<Rightarrow> f x)"

abbreviation ok :: "'a \<Rightarrow> (error + 'a) option" where
  "ok x \<equiv> Some (Inr x)"

abbreviation panic :: "error \<Rightarrow> (error + 'a) option" where
  "panic e \<equiv> Some (Inl e)"

abbreviation lift :: "error + 'a \<Rightarrow> (error + 'a) option" where
  "lift r \<equiv> Some r"

text \<open>
  \<open>type node struct { nexts []*node; key string; val ... }\<close>. A \<open>*node\<close> is an index into
  the arena of allocated nodes, \<open>None\<close> is the nil pointer. The value is \<open>interface{}\<close> in
  package skiplist and \<open>[]byte\<close> in package memtable; \<open>None\<close> is Go's nil value.
\<close>

record 'v node =
  nexts :: "nat option list"
  key :: string
  val :: "'v option"

type_synonym ptr = "nat option"

definition maxHeight :: nat where
  "maxHeight = 16"

definition deref :: "'v node list \<Rightarrow> ptr \<Rightarrow> error + 'v node" where
  "deref h p = (case p of None \<Rightarrow> Inl NilDereference
                | Some a \<Rightarrow> if a < length h then Inr (h ! a) else Inl NilDereference)"

text \<open>\<open>p.nexts[layer]\<close>: panics on a nil \<open>p\<close> and on an index beyond the tower.\<close>

definition nextOf :: "'v node list \<Rightarrow> ptr \<Rightarrow> nat \<Rightarrow> error + ptr" where
  "nextOf h p layer = (case deref h p of Inl e \<Rightarrow> Inl e
     | Inr n \<Rightarrow> if layer < length (nexts n) then Inr (nexts n ! layer) else Inl IndexOutOfRange)"

definition keyOf :: "'v node list \<Rightarrow> ptr \<Rightarrow> error + string" where
  "keyOf h p = (case deref h p of Inl e \<Rightarrow> Inl e | Inr n \<Rightarrow> Inr (key n))"

definition valOf :: "'v node list \<Rightarrow> ptr \<Rightarrow> error + 'v option" where
  "valOf h p = (case deref h p of Inl e \<Rightarrow> Inl e | Inr n \<Rightarrow> Inr (val n))"

text \<open>\<open>p.nexts[layer] = q\<close> and \<open>p.val = v\<close>.\<close>

definition setNext :: "'v node list \<Rightarrow> ptr \<Rightarrow> nat \<Rightarrow> ptr \<Rightarrow> error + 'v node list" where
  "setNext h p layer q = (case p of None \<Rightarrow> Inl NilDereference
     | Some a \<Rightarrow> if a < length h then
         (if layer < length (nexts (h ! a))
          then Inr (h[a := (h ! a)\<lparr>nexts := (nexts (h ! a))[layer := q]\<rparr>])
          else Inl IndexOutOfRange)
       else Inl NilDereference)"

definition setVal :: "'v node list \<Rightarrow> ptr \<Rightarrow> 'v option \<Rightarrow> error + 'v node list" where
  "setVal h p v = (case p of None \<Rightarrow> Inl NilDereference
     | Some a \<Rightarrow> if a < length h then Inr (h[a := (h ! a)\<lparr>val := v\<rparr>]) else Inl NilDereference)"

section \<open>The code shared word for word by package skiplist and package memtable\<close>

text \<open>
  \<open>liftLayers\<close>: \<open>layer := 1; for ; layer < maxHeight; layer++ { if rand.Intn(2) == 0 { break } }\<close>.
  The outcomes of the successive calls of \<open>rand.Intn(2)\<close> are the function \<open>rnd\<close>: the call
  made while \<open>layer = l\<close> returns \<open>rnd (l - 1)\<close>. The counter stays below 17, so the
  \<open>uint8\<close> never wraps.
\<close>

function liftLayersFrom :: "(nat \<Rightarrow> nat) \<Rightarrow> nat \<Rightarrow> nat" where
  "liftLayersFrom rnd layer =
     (if layer < maxHeight
      then (if rnd (layer - 1) = 0 then layer else liftLayersFrom rnd (layer + 1))
      else layer)"
  by pat_completeness auto
termination
  by (relation "measure (\<lambda>(rnd, layer). maxHeight - layer)") auto

definition liftLayers :: "(nat \<Rightarrow> nat) \<Rightarrow> nat" where
  "liftLayers rnd = liftLayersFrom rnd 1"

definition newNode :: "string \<Rightarrow> 'v option \<Rightarrow> nat \<Rightarrow> 'v node" where
  "newNode k v layerNum = \<lparr>nexts = replicate layerNum None, key = k, val = v\<rparr>"

definition initBound :: "ptr \<Rightarrow> ptr list" where
  "initBound initNode = replicate maxHeight initNode"

text \<open>
  The loop of \<open>narrowDownBound\<close>, entered with \<open>cur\<close> and \<open>next\<close>. The condition
  \<open>(cur == head || cur.key <= key) && (next == tail || next.key >= key)\<close> is evaluated
  left to right with Go's short circuit, so \<open>next.key\<close> is read only when the first
  conjunct holds.
\<close>

partial_function (option) narrowDownLoop ::
  "'v node list \<Rightarrow> ptr \<Rightarrow> ptr \<Rightarrow> ptr \<Rightarrow> string \<Rightarrow> nat \<Rightarrow> ptr \<Rightarrow> ptr \<Rightarrow> (error + ptr \<times> ptr) option"
where
  "narrowDownLoop h head tail rightBound k layer cur next =
     (if next = rightBound then Some (Inr (cur, next))
      else case (if cur = head then Inr True
                 else case keyOf h cur of Inl e \<Rightarrow> Inl e | Inr ck \<Rightarrow> Inr (ck \<le> k)) of
             Inl e \<Rightarrow> Some (Inl e)
           | Inr c1 \<Rightarrow>
              (case (if \<not> c1 then Inr False
                     else if next = tail then Inr True
                     else case keyOf h next of Inl e \<Rightarrow> Inl e | Inr nk \<Rightarrow> Inr (nk \<ge> k)) of
                 Inl e \<Rightarrow> Some (Inl e)
               | Inr c2 \<Rightarrow>
                  if c2 then Some (Inr (cur, next))
                  else (case nextOf h next layer of
                          Inl e \<Rightarrow> Some (Inl e)
                        | Inr next' \<Rightarrow> narrowDownLoop h head tail rightBound k layer next next')))"

declare narrowDownLoop.simps [code]

definition narrowDownBound ::
  "'v node list \<Rightarrow> ptr \<Rightarrow> ptr \<Rightarrow> ptr \<Rightarrow> ptr \<Rightarrow> string \<Rightarrow> nat \<Rightarrow> (error + ptr \<times> ptr) option" where
  "narrowDownBound h head tail leftBound rightBound k layer =
     (case nextOf h leftBound layer of
        Inl e \<Rightarrow> Some (Inl e)
      | Inr next \<Rightarrow> narrowDownLoop h head tail rightBound k layer leftBound next)"

text \<open>
  The descent of \<open>searchBounds\<close>: \<open>for i := maxHeight - 1; ; i-- { ... if i == 0 { break } ... }\<close>.
\<close>

fun searchLevels ::
  "'v node list \<Rightarrow> ptr \<Rightarrow> ptr \<Rightarrow> string \<Rightarrow> nat \<Rightarrow> ptr list \<Rightarrow> ptr list \<Rightarrow> (error + ptr list \<times> ptr list) option"
where
  "searchLevels h head tail k 0 leftBounds rightBounds =
     bindR (narrowDownBound h head tail (leftBounds ! 0) (rightBounds ! 0) k 0)
       (\<lambda>(leftBound, rightBound).
          ok (leftBounds[0 := leftBound], rightBounds[0 := rightBound]))"
| "searchLevels h head tail k (Suc i) leftBounds rightBounds =
     bindR (narrowDownBound h head tail (leftBounds ! Suc i) (rightBounds ! Suc i) k (Suc i))
       (\<lambda>(leftBound, rightBound).
          searchLevels h head tail k i
            (leftBounds[Suc i := leftBound, i := leftBound])
            (rightBounds[Suc i := rightBound, i := rightBound]))"

text \<open>
  \<open>searchBounds\<close>; the two packages differ only in the width of \<open>st.size\<close>, so the test
  \<open>st.size == 0\<close> is passed in as \<open>sizeIsZero\<close>.
\<close>

definition searchBoundsOn ::
  "'v node list \<Rightarrow> ptr \<Rightarrow> ptr \<Rightarrow> bool \<Rightarrow> string \<Rightarrow> (error + ptr list \<times> ptr list) option" where
  "searchBoundsOn h head tail sizeIsZero k =
     (let leftBounds = initBound head; rightBounds = initBound tail in
      if sizeIsZero then ok (leftBounds, rightBounds)
      else bindR (lift (nextOf h head (maxHeight - 1))) (\<lambda>top.
           bindR (searchLevels h head tail k (maxHeight - 1)
                    (leftBounds[maxHeight - 1 := head]) (rightBounds[maxHeight - 1 := top]))
             (\<lambda>(leftBounds, rightBounds).
           bindR (narrowDownBound h head tail (leftBounds ! 0) (rightBounds ! 0) k 0)
             (\<lambda>(leftBound, rightBound).
                ok (leftBounds[0 := leftBound], rightBounds[0 := rightBound])))))"

definition searchWithBoundsOn ::
  "'v node list \<Rightarrow> ptr \<Rightarrow> string \<Rightarrow> ptr list \<Rightarrow> ptr list \<Rightarrow> error + ptr" where
  "searchWithBoundsOn h head k leftBounds rightBounds =
     (case (if leftBounds ! 0 \<noteq> head
            then (case keyOf h (leftBounds ! 0) of Inl e \<Rightarrow> Inl e | Inr lk \<Rightarrow> Inr (lk = k))
            else Inr False) of
        Inl e \<Rightarrow> Inl e
      | Inr True \<Rightarrow> Inr (leftBounds ! 0)
      | Inr False \<Rightarrow>
         (case (if rightBounds ! 0 \<noteq> head
                then (case keyOf h (rightBounds ! 0) of Inl e \<Rightarrow> Inl e | Inr rk \<Rightarrow> Inr (rk = k))
                else Inr False) of
            Inl e \<Rightarrow> Inl e
          | Inr True \<Rightarrow> Inr (rightBounds ! 0)
          | Inr False \<Rightarrow> Inr None))"

text \<open>
  The splice loop of \<open>update\<close>:
  \<open>for i := 0; i < layerNum; i++ { leftBounds[i].nexts[i] = node; node.nexts[i] = rightBounds[i] }\<close>,
  run over the levels \<open>[0..<layerNum]\<close>.
\<close>

fun spliceLevels ::
  "'v node list \<Rightarrow> ptr \<Rightarrow> ptr list \<Rightarrow> ptr list \<Rightarrow> nat list \<Rightarrow> error + 'v node list" where
  "spliceLevels h nd leftBounds rightBounds [] = Inr h"
| "spliceLevels h nd leftBounds rightBounds (i # levels) =
     (if i < length leftBounds \<and> i < length rightBounds then
        (case setNext h (leftBounds ! i) i nd of
           Inl e \<Rightarrow> Inl e
         | Inr h1 \<Rightarrow>
            (case setNext h1 nd i (rightBounds ! i) of
               Inl e \<Rightarrow> Inl e
             | Inr h2 \<Rightarrow> spliceLevels h2 nd leftBounds rightBounds levels))
      else Inl IndexOutOfRange)"

section \<open>Package skiplist: the lock-guarded skip list\<close>

text \<open>
  \<open>type skipList struct { head, tail *node; size uint64; rwMutex sync.RWMutex }\<close>, with the
  nodes it owns. The exported methods run under the lock, one at a time; the model is the
  sequential behaviour of one call. A \<open>*skipList\<close> receiver is a \<open>skipList option\<close>,
  \<open>None\<close> being the nil receiver.
\<close>

record 'v skipList =
  sl_nodes :: "'v node list"
  sl_head :: ptr
  sl_tail :: ptr
  sl_size :: "64 word"

definition NewSkipList :: "'v skipList" where
  "NewSkipList =
     \<lparr>sl_nodes = [\<lparr>nexts = replicate maxHeight (Some 1), key = [], val = None\<rparr>,
                  \<lparr>nexts = replicate maxHeight None, key = [], val = None\<rparr>],
      sl_head = Some 0, sl_tail = Some 1, sl_size = 0\<rparr>"

definition GetSize :: "'v skipList \<Rightarrow> 64 word" where
  "GetSize st = sl_size st"

definition IsEmpty :: "'v skipList \<Rightarrow> bool" where
  "IsEmpty st = (sl_size st = 0)"

definition searchBounds :: "'v skipList \<Rightarrow> string \<Rightarrow> (error + ptr list \<times> ptr list) option" where
  "searchBounds st k = searchBoundsOn (sl_nodes st) (sl_head st) (sl_tail st) (sl_size st = 0) k"

definition searchWithBounds :: "'v skipList \<Rightarrow> string \<Rightarrow> ptr list \<Rightarrow> ptr list \<Rightarrow> error + ptr" where
  "searchWithBounds st k leftBounds rightBounds =
     searchWithBoundsOn (sl_nodes st) (sl_head st) k leftBounds rightBounds"

definition search :: "'v skipList \<Rightarrow> string \<Rightarrow> (error + ptr) option" where
  "search st k =
     bindR (searchBounds st k) (\<lambda>(leftBounds, rightBounds).
       lift (searchWithBounds st k leftBounds rightBounds))"

text \<open>\<open>Search\<close> returns an \<open>interface{}\<close>: nil when no node is found, else the node's value.\<close>

definition Search :: "'v skipList option \<Rightarrow> string \<Rightarrow> (error + 'v option) option" where
  "Search sto k =
     (case sto of None \<Rightarrow> ok None
      | Some st \<Rightarrow>
         bindR (search st k) (\<lambda>nd.
           if nd = None then ok None else lift (valOf (sl_nodes st) nd)))"

definition update :: "'v skipList \<Rightarrow> string \<Rightarrow> 'v option \<Rightarrow> (nat \<Rightarrow> nat) \<Rightarrow> (error + 'v skipList) option" where
  "update st k v rnd =
     bindR (searchBounds st k) (\<lambda>(leftBounds, rightBounds).
     bindR (lift (searchWithBounds st k leftBounds rightBounds)) (\<lambda>nd.
       if nd \<noteq> None then
         bindR (lift (valOf (sl_nodes st) nd)) (\<lambda>old.
           let st1 = (if old = None then st\<lparr>sl_size := sl_size st + 1\<rparr> else st) in
           bindR (lift (setVal (sl_nodes st1) nd v)) (\<lambda>h. ok (st1\<lparr>sl_nodes := h\<rparr>)))
       else
         let layerNum = liftLayers rnd;
             nd' = Some (length (sl_nodes st));
             h0 = sl_nodes st @ [newNode k v layerNum]
         in bindR (lift (spliceLevels h0 nd' leftBounds rightBounds [0..<layerNum])) (\<lambda>h.
              ok (st\<lparr>sl_nodes := h, sl_size := sl_size st + 1\<rparr>))))"

definition Insert :: "'v skipList option \<Rightarrow> string \<Rightarrow> 'v option \<Rightarrow> (nat \<Rightarrow> nat) \<Rightarrow> (error + 'v skipList option) option" where
  "Insert sto k v rnd =
     (case sto of None \<Rightarrow> ok None
      | Some st \<Rightarrow>
         if v = None then panic (Panic ''Nil value'')
         else bindR (update st k v rnd) (\<lambda>st'. ok (Some st')))"

definition Update :: "'v skipList option \<Rightarrow> string \<Rightarrow> 'v option \<Rightarrow> (nat \<Rightarrow> nat) \<Rightarrow> (error + 'v skipList option) option" where
  "Update sto k v rnd =
     (case sto of None \<Rightarrow> ok None
      | Some st \<Rightarrow>
         if v = None then panic (Panic ''Nil value'')
         else bindR (update st k v rnd) (\<lambda>st'. ok (Some st')))"

definition Delete :: "'v skipList option \<Rightarrow> string \<Rightarrow> (error + 'v skipList option) option" where
  "Delete sto k =
     (case sto of None \<Rightarrow> ok None
      | Some st \<Rightarrow>
         bindR (searchBounds st k) (\<lambda>(leftBounds, rightBounds).
         bindR (lift (searchWithBounds st k leftBounds rightBounds)) (\<lambda>nd.
           if nd = None then ok (Some st)
           else bindR (lift (setVal (sl_nodes st) nd None)) (\<lambda>h.
                  ok (Some (st\<lparr>sl_nodes := h, sl_size := sl_size st - 1\<rparr>))))))"

section \<open>Package memtable: the skip list without a lock of its own\<close>

text \<open>
  \<open>type Skiplist struct { head, tail *node; len uint32; size uint32; ... }\<close>; values are
  \<open>[]byte\<close>, modelled as \<open>string\<close>, and \<open>None\<close> is the nil slice that marks a deleted key.
\<close>

record Skiplist =
  st_nodes :: "string node list"
  st_head :: ptr
  st_tail :: ptr
  st_len :: "32 word"
  st_size :: "32 word"

definition NewSkipList_mt :: Skiplist where
  "NewSkipList_mt =
     \<lparr>st_nodes = [\<lparr>nexts = replicate maxHeight (Some 1), key = [], val = None\<rparr>,
                  \<lparr>nexts = replicate maxHeight None, key = [], val = None\<rparr>],
      st_head = Some 0, st_tail = Some 1, st_len = 0, st_size = 0\<rparr>"

definition GetLen :: "Skiplist \<Rightarrow> 32 word" where
  "GetLen st = st_len st"

definition GetSize_mt :: "Skiplist \<Rightarrow> 32 word" where
  "GetSize_mt st = st_size st"

definition searchBounds_mt :: "Skiplist \<Rightarrow> string \<Rightarrow> (error + ptr list \<times> ptr list) option" where
  "searchBounds_mt st k = searchBoundsOn (st_nodes st) (st_head st) (st_tail st) (st_size st = 0) k"

definition searchWithBounds_mt :: "Skiplist \<Rightarrow> string \<Rightarrow> ptr list \<Rightarrow> ptr list \<Rightarrow> error + ptr" where
  "searchWithBounds_mt st k leftBounds rightBounds =
     searchWithBoundsOn (st_nodes st) (st_head st) k leftBounds rightBounds"

definition Get :: "Skiplist \<Rightarrow> string \<Rightarrow> (error + ptr) option" where
  "Get st k =
     bindR (searchBounds_mt st k) (\<lambda>(leftBounds, rightBounds).
       lift (searchWithBounds_mt st k leftBounds rightBounds))"

text \<open>\<open>len(val)\<close> of a nil slice is 0; \<open>uint32(n)\<close> truncates.\<close>

definition len_bytes :: "string option \<Rightarrow> nat" where
  "len_bytes v = (case v of None \<Rightarrow> 0 | Some bs \<Rightarrow> length bs)"

definition Update_mt :: "Skiplist \<Rightarrow> string \<Rightarrow> string option \<Rightarrow> (nat \<Rightarrow> nat) \<Rightarrow> (error + Skiplist \<times> bool) option" where
  "Update_mt st k v rnd =
     bindR (searchBounds_mt st k) (\<lambda>(leftBounds, rightBounds).
     bindR (lift (searchWithBounds_mt st k leftBounds rightBounds)) (\<lambda>nd.
       if nd \<noteq> None then
         bindR (lift (valOf (st_nodes st) nd)) (\<lambda>old.
           if old = None then
             ok (st\<lparr>st_len := st_len st + 1,
                    st_size := st_size st + of_nat (len_bytes v)\<rparr>, True)
           else
             bindR (lift (setVal (st_nodes st) nd v)) (\<lambda>h.
               ok (st\<lparr>st_nodes := h,
                      st_size := st_size st - of_nat (len_bytes old) + of_nat (len_bytes v)\<rparr>, True)))
       else
         let layerNum = liftLayers rnd;
             nd' = Some (length (st_nodes st));
             h0 = st_nodes st @ [newNode k v layerNum]
         in bindR (lift (spliceLevels h0 nd' leftBounds rightBounds [0..<layerNum])) (\<lambda>h.
              ok (st\<lparr>st_nodes := h, st_len := st_len st + 1,
                     st_size := st_size st + of_nat (length k + len_bytes v)\<rparr>, True))))"

section \<open>Package memtable: the generations\<close>

text \<open>
  \<open>type memtable struct { skiplists []*Skiplist; ... }\<close>, newest generation first. The
  source fixes \<open>skipListThreshold\<close>; the operations take the threshold as \<open>thr\<close> and the
  source's are the instances at \<open>skipListThreshold\<close>.
\<close>

record memtable =
  skiplists :: "Skiplist list"

definition skipListThreshold :: "32 word" where
  "skipListThreshold = 256 * 1024 * 1024"

definition NewMemtable :: memtable where
  "NewMemtable = \<lparr>skiplists = []\<rparr>"

fun scanGenerations :: "Skiplist list \<Rightarrow> string \<Rightarrow> (error + string option \<times> bool) option" where
  "scanGenerations [] k = ok (None, False)"
| "scanGenerations (st # sts) k =
     bindR (Get st k) (\<lambda>nd.
       if nd = None then scanGenerations sts k
       else bindR (lift (valOf (st_nodes st) nd)) (\<lambda>v. ok (v, True)))"

definition Get_memtable :: "memtable \<Rightarrow> string \<Rightarrow> (error + string option \<times> bool) option" where
  "Get_memtable mt k = scanGenerations (skiplists mt) k"

definition popSkiplist :: "memtable \<Rightarrow> memtable" where
  "popSkiplist mt =
     (let n = length (skiplists mt) in
      if n = 0 then mt else mt\<lparr>skiplists := take (n - 1) (skiplists mt)\<rparr>)"

definition newSkiplist :: "memtable \<Rightarrow> memtable" where
  "newSkiplist mt = mt\<lparr>skiplists := NewSkipList_mt # skiplists mt\<rparr>"

text \<open>
  The rotation test shared by \<open>Update\<close> and \<open>Delete\<close>:
  \<open>if len(mt.skiplists) == 0 || mt.skiplists[0].GetSize() >= skipListThreshold { mt.newSkiplist() }\<close>.
\<close>

definition rotate :: "32 word \<Rightarrow> memtable \<Rightarrow> memtable" where
  "rotate thr mt =
     (if length (skiplists mt) = 0 \<or> GetSize_mt (skiplists mt ! 0) \<ge> thr
      then newSkiplist mt else mt)"

definition writeNewest :: "memtable \<Rightarrow> string \<Rightarrow> string option \<Rightarrow> (nat \<Rightarrow> nat) \<Rightarrow> (error + memtable \<times> bool) option" where
  "writeNewest mt k v rnd =
     (case skiplists mt of
        [] \<Rightarrow> panic IndexOutOfRange
      | st # sts \<Rightarrow>
         bindR (Update_mt st k v rnd) (\<lambda>(st', b). ok (mt\<lparr>skiplists := st' # sts\<rparr>, b)))"

definition Update_thr :: "32 word \<Rightarrow> memtable \<Rightarrow> string \<Rightarrow> string option \<Rightarrow> (nat \<Rightarrow> nat) \<Rightarrow> (error + memtable \<times> bool) option" where
  "Update_thr thr mt k v rnd =
     (if v = None then panic (Panic ''Nil val'')
      else writeNewest (rotate thr mt) k v rnd)"

definition Delete_thr :: "32 word \<Rightarrow> memtable \<Rightarrow> string \<Rightarrow> (nat \<Rightarrow> nat) \<Rightarrow> (error + memtable \<times> bool) option" where
  "Delete_thr thr mt k rnd = writeNewest (rotate thr mt) k None rnd"

definition Update_memtable :: "memtable \<Rightarrow> string \<Rightarrow> string option \<Rightarrow> (nat \<Rightarrow> nat) \<Rightarrow> (error + memtable \<times> bool) option" where
  "Update_memtable = Update_thr skipListThreshold"

definition Delete_memtable :: "memtable \<Rightarrow> string \<Rightarrow> (nat \<Rightarrow> nat) \<Rightarrow> (error + memtable \<times> bool) option" where
  "Delete_memtable = Delete_thr skipListThreshold"

text \<open>
  \<open>type MemtableIterator struct { st *Skiplist; cursor *node }\<close>. \<open>getVal\<close> converts the
  bytes to a string, and the nil slice of a deleted key to the empty string.
\<close>

record MemtableIterator =
  it_st :: Skiplist
  cursor :: ptr

definition getKey :: "MemtableIterator \<Rightarrow> error + string" where
  "getKey it = keyOf (st_nodes (it_st it)) (cursor it)"

definition getVal :: "MemtableIterator \<Rightarrow> error + string" where
  "getVal it = (case valOf (st_nodes (it_st it)) (cursor it) of
                  Inl e \<Rightarrow> Inl e
                | Inr v \<Rightarrow> Inr (case v of None \<Rightarrow> [] | Some bs \<Rightarrow> bs))"

definition "next" :: "MemtableIterator \<Rightarrow> error + MemtableIterator" where
  "next it = (case nextOf (st_nodes (it_st it)) (cursor it) 0 of
                Inl e \<Rightarrow> Inl e
              | Inr c \<Rightarrow> Inr (it\<lparr>cursor := c\<rparr>))"

definition hasNext :: "MemtableIterator \<Rightarrow> bool" where
  "hasNext it = (cursor it \<noteq> None \<and> cursor it \<noteq> st_tail (it_st it))"

definition getLastIterator :: "memtable \<Rightarrow> (error + MemtableIterator option)" where
  "getLastIterator mt =
     (if length (skiplists mt) \<le> 1 then Inr None
      else let lastSkiplist = skiplists mt ! (length (skiplists mt) - 1) in
           case nextOf (st_nodes lastSkiplist) (st_head lastSkiplist) 0 of
             Inl e \<Rightarrow> Inl e
           | Inr c \<Rightarrow> Inr (Some \<lparr>it_st = lastSkiplist, cursor = c\<rparr>))"

text \<open>
  The loop for which the \<open>Iterator\<close> interface is made:
  \<open>for it.hasNext() { emit(it.getKey(), it.getVal()); it.next() }\<close>.
\<close>

partial_function (option) drainFrom ::
  "MemtableIterator \<Rightarrow> (string \<times> string) list \<Rightarrow> (error + (string \<times> string) list) option" where
  "drainFrom it out =
     (if hasNext it then
        (case getKey it of Inl e \<Rightarrow> Some (Inl e) | Inr k \<Rightarrow>
           (case getVal it of Inl e \<Rightarrow> Some (Inl e) | Inr v \<Rightarrow>
              (case next it of Inl e \<Rightarrow> Some (Inl e) | Inr it' \<Rightarrow>
                 drainFrom it' (out @ [(k, v)]))))
      else Some (Inr out))"

declare drainFrom.simps [code]

definition drain :: "MemtableIterator \<Rightarrow> (error + (string \<times> string) list) option" where
  "drain it = drainFrom it []"

section \<open>Package btree: the node page codec\<close>

text \<open>
  \<open>type BTreeNode []byte\<close>. A Go slice is a window on an array: the array, the offset of the
  window and its length; its capacity reaches to the end of the array. \<open>s[lo:hi]\<close> panics
  unless \<open>lo \<le> hi \<le> cap(s)\<close>, \<open>s[lo:]\<close> is \<open>s[lo:len(s)]\<close> and \<open>s[:hi]\<close> is \<open>s[0:hi]\<close>.
\<close>

type_synonym byte = "8 word"

record slice =
  s_arr :: "byte list"
  s_off :: nat
  s_len :: nat

definition mkSlice :: "byte list \<Rightarrow> slice" where
  "mkSlice bs = \<lparr>s_arr = bs, s_off = 0, s_len = length bs\<rparr>"

definition bytes :: "slice \<Rightarrow> byte list" where
  "bytes s = take (s_len s) (drop (s_off s) (s_arr s))"

definition cap :: "slice \<Rightarrow> nat" where
  "cap s = length (s_arr s) - s_off s"

definition reslice :: "slice \<Rightarrow> nat \<Rightarrow> nat \<Rightarrow> error + slice" where
  "reslice s lo hi =
     (if lo \<le> hi \<and> hi \<le> cap s then Inr (s\<lparr>s_off := s_off s + lo, s_len := hi - lo\<rparr>)
      else Inl SliceBoundsOutOfRange)"

definition sliceFrom :: "slice \<Rightarrow> nat \<Rightarrow> error + slice" where
  "sliceFrom s lo = reslice s lo (s_len s)"

definition sliceTo :: "slice \<Rightarrow> nat \<Rightarrow> error + slice" where
  "sliceTo s hi = reslice s 0 hi"

definition bindE :: "error + 'a \<Rightarrow> ('a \<Rightarrow> error + 'b) \<Rightarrow> error + 'b" where
  "bindE m f = (case m of Inl e \<Rightarrow> Inl e | Inr x \<Rightarrow> f x)"

text \<open>
  \<open>encoding/binary\<close>, little endian. Each function first touches the last byte it needs
  (\<open>_ = b[1]\<close>, \<open>_ = b[7]\<close>), which panics on a shorter slice.
\<close>

definition byteAt :: "slice \<Rightarrow> nat \<Rightarrow> byte" where
  "byteAt b i = s_arr b ! (s_off b + i)"

definition Uint16 :: "slice \<Rightarrow> error + 16 word" where
  "Uint16 b =
     (if s_len b < 2 then Inl IndexOutOfRange
      else Inr (ucast (byteAt b 0) OR push_bit 8 (ucast (byteAt b 1))))"

definition PutUint16 :: "slice \<Rightarrow> 16 word \<Rightarrow> error + slice" where
  "PutUint16 b v =
     (if s_len b < 2 then Inl IndexOutOfRange
      else Inr (b\<lparr>s_arr := (s_arr b)[s_off b := ucast v, s_off b + 1 := ucast (drop_bit 8 v)]\<rparr>))"

definition Uint64 :: "slice \<Rightarrow> error + 64 word" where
  "Uint64 b =
     (if s_len b < 8 then Inl IndexOutOfRange
      else Inr (ucast (byteAt b 0) OR push_bit 8 (ucast (byteAt b 1))
                OR push_bit 16 (ucast (byteAt b 2)) OR push_bit 24 (ucast (byteAt b 3))
                OR push_bit 32 (ucast (byteAt b 4)) OR push_bit 40 (ucast (byteAt b 5))
                OR push_bit 48 (ucast (byteAt b 6)) OR push_bit 56 (ucast (byteAt b 7))))"

definition PutUint64 :: "slice \<Rightarrow> 64 word \<Rightarrow> error + slice" where
  "PutUint64 b v =
     (if s_len b < 8 then Inl IndexOutOfRange
      else Inr (b\<lparr>s_arr := (s_arr b)
                 [s_off b := ucast v, s_off b + 1 := ucast (drop_bit 8 v),
                  s_off b + 2 := ucast (drop_bit 16 v), s_off b + 3 := ucast (drop_bit 24 v),
                  s_off b + 4 := ucast (drop_bit 32 v), s_off b + 5 := ucast (drop_bit 40 v),
                  s_off b + 6 := ucast (drop_bit 48 v), s_off b + 7 := ucast (drop_bit 56 v)]\<rparr>))"

subsection \<open>btree.go: the page with the 8-byte header\<close>

text \<open>\<open>type BTreeNodeType byte\<close>, \<open>internal = 0\<close>, \<open>leaf = 1\<close>.\<close>

type_synonym BTreeNodeType = byte

definition internal :: BTreeNodeType where
  "internal = 0"

definition leaf :: BTreeNodeType where
  "leaf = 1"

definition getTypeLiteral :: "BTreeNodeType \<Rightarrow> string" where
  "getTypeLiteral t = (if t = internal then ''INTERNAL'' else ''LEAF'')"

text \<open>\<open>slice[offset : offset+len]\<close>, the sum taken in \<open>uint16\<close>.\<close>

definition getSlice :: "slice \<Rightarrow> 16 word \<Rightarrow> 16 word \<Rightarrow> error + slice" where
  "getSlice s offset n = reslice s (unat offset) (unat (offset + n))"

definition getType :: "slice \<Rightarrow> error + BTreeNodeType" where
  "getType nd = bindE (getSlice nd 0 2) (\<lambda>s. bindE (Uint16 s) (\<lambda>w. Inr (ucast w)))"

definition setType :: "slice \<Rightarrow> BTreeNodeType \<Rightarrow> error + slice" where
  "setType nd t = bindE (getSlice nd 0 2) (\<lambda>s. bindE (PutUint16 s (ucast t))
                    (\<lambda>s'. Inr (nd\<lparr>s_arr := s_arr s'\<rparr>)))"

definition getCount :: "slice \<Rightarrow> error + 16 word" where
  "getCount nd = bindE (getSlice nd 2 2) Uint16"

definition setCount :: "slice \<Rightarrow> 16 word \<Rightarrow> error + slice" where
  "setCount nd c = bindE (getSlice nd 2 2) (\<lambda>s. bindE (PutUint16 s c)
                     (\<lambda>s'. Inr (nd\<lparr>s_arr := s_arr s'\<rparr>)))"

definition getSize :: "slice \<Rightarrow> error + 16 word" where
  "getSize nd = bindE (getSlice nd 4 2) Uint16"

definition setSize :: "slice \<Rightarrow> 16 word \<Rightarrow> error + slice" where
  "setSize nd c = bindE (getSlice nd 4 2) (\<lambda>s. bindE (PutUint16 s c)
                    (\<lambda>s'. Inr (nd\<lparr>s_arr := s_arr s'\<rparr>)))"

text \<open>
  The panic values: \<open>fmt.Sprintf("index %d out of bound %d", idx, bound)\<close> and
  \<open>fmt.Sprintf("expected %v but got %v", getTypeLiteral(expected), getTypeLiteral(actual))\<close>.
\<close>

function decimal :: "nat \<Rightarrow> string" where
  "decimal n = (if n < 10 then [char_of (48 + n)] else decimal (n div 10) @ [char_of (48 + n mod 10)])"
  by pat_completeness auto
termination
  by (relation "measure id") auto

definition panicOutOfBoundMsg :: "16 word \<Rightarrow> 16 word \<Rightarrow> string" where
  "panicOutOfBoundMsg idx bound =
     ''index '' @ decimal (unat idx) @ '' out of bound '' @ decimal (unat bound)"

definition panicTypeMismatchMsg :: "BTreeNodeType \<Rightarrow> BTreeNodeType \<Rightarrow> string" where
  "panicTypeMismatchMsg expected actual =
     ''expected '' @ getTypeLiteral expected @ '' but got '' @ getTypeLiteral actual"

definition checkType :: "slice \<Rightarrow> BTreeNodeType \<Rightarrow> error + unit" where
  "checkType nd t =
     bindE (getType nd) (\<lambda>nodeType.
       if nodeType \<noteq> t
       then bindE (getType nd) (\<lambda>actual. Inl (Panic (panicTypeMismatchMsg t actual)))
       else Inr ())"

definition checkIdx :: "slice \<Rightarrow> 16 word \<Rightarrow> error + unit" where
  "checkIdx nd idx =
     bindE (getCount nd) (\<lambda>count.
       if idx \<ge> count then Inl (Panic (panicOutOfBoundMsg idx count)) else Inr ())"

definition getData :: "slice \<Rightarrow> error + slice" where
  "getData nd = bindE (getSize nd) (\<lambda>sz. getSlice nd 8 (sz - 8))"

definition getChildPtr :: "slice \<Rightarrow> 16 word \<Rightarrow> error + 64 word" where
  "getChildPtr nd idx =
     bindE (checkType nd internal) (\<lambda>_.
     bindE (checkIdx nd idx) (\<lambda>_.
     bindE (getData nd) (\<lambda>data.
     bindE (getSlice data (idx * 8) 8) Uint64)))"

definition setChildPtr :: "slice \<Rightarrow> 16 word \<Rightarrow> 64 word \<Rightarrow> error + slice" where
  "setChildPtr nd idx p =
     bindE (checkType nd internal) (\<lambda>_.
     bindE (checkIdx nd idx) (\<lambda>_.
     bindE (getData nd) (\<lambda>data.
     bindE (getSlice data (idx * 8) 8) (\<lambda>s.
     bindE (PutUint64 s p) (\<lambda>s'. Inr (nd\<lparr>s_arr := s_arr s'\<rparr>))))))"

definition getKV :: "slice \<Rightarrow> 16 word \<Rightarrow> error + slice \<times> slice" where
  "getKV nd idx =
     bindE (checkType nd leaf) (\<lambda>_.
     bindE (checkIdx nd idx) (\<lambda>_.
     bindE (getCount nd) (\<lambda>count.
     bindE (getData nd) (\<lambda>data.
     bindE (sliceTo data (unat (count * 2))) (\<lambda>kvOffsets.
     bindE (getSlice kvOffsets (idx * 2) 2) (\<lambda>s.
     bindE (Uint16 s) (\<lambda>kvOffset.
     bindE (sliceFrom data (unat (count * 2))) (\<lambda>kvPairs.
     bindE (sliceFrom kvPairs (unat kvOffset)) (\<lambda>kvPair.
     bindE (getSlice kvPair 0 2) (\<lambda>s.
     bindE (Uint16 s) (\<lambda>keyLen.
     bindE (getSlice kvPair 2 2) (\<lambda>s.
     bindE (Uint16 s) (\<lambda>valueLen.
     bindE (getSlice kvPair 0 (2 + 2 + keyLen + valueLen)) (\<lambda>kvPair.
     bindE (getSlice kvPair 4 keyLen) (\<lambda>k.
     bindE (getSlice kvPair (4 + keyLen) valueLen) (\<lambda>v.
       Inr (k, v)))))))))))))))))"

subsection \<open>The other copy of the btree package (4-byte header, no size field)\<close>

text \<open>
  This file declares the same names; its functions carry the suffix \<open>_v0\<close>. Its panic
  value for a wrong type is
  \<open>fmt.Sprintf("mismatch between type %s and type %s", getTypeLiteral(nodeType), getTypeLiteral(type_))\<close>.
\<close>

definition getTypeSlice_v0 :: "slice \<Rightarrow> error + slice" where
  "getTypeSlice_v0 nd = bindE (sliceFrom nd 0) (\<lambda>s. sliceTo s 2)"

definition getType_v0 :: "slice \<Rightarrow> error + BTreeNodeType" where
  "getType_v0 nd = bindE (getTypeSlice_v0 nd) (\<lambda>s. bindE (Uint16 s) (\<lambda>w. Inr (ucast w)))"

definition getCountSlice_v0 :: "slice \<Rightarrow> error + slice" where
  "getCountSlice_v0 nd = bindE (sliceFrom nd 2) (\<lambda>s. sliceTo s 4)"

definition getCount_v0 :: "slice \<Rightarrow> error + 16 word" where
  "getCount_v0 nd = bindE (getCountSlice_v0 nd) Uint16"

definition panicTypeMistMatch_v0 :: "BTreeNodeType \<Rightarrow> BTreeNodeType \<Rightarrow> string" where
  "panicTypeMistMatch_v0 nodeType t =
     ''mismatch between type '' @ getTypeLiteral nodeType @ '' and type '' @ getTypeLiteral t"

definition checkType_v0 :: "slice \<Rightarrow> BTreeNodeType \<Rightarrow> error + unit" where
  "checkType_v0 nd t =
     bindE (getType_v0 nd) (\<lambda>nodeType.
       if nodeType \<noteq> t then Inl (Panic (panicTypeMistMatch_v0 nodeType t)) else Inr ())"

definition checkIdx_v0 :: "slice \<Rightarrow> 16 word \<Rightarrow> error + unit" where
  "checkIdx_v0 nd idx =
     bindE (getCount_v0 nd) (\<lambda>count.
       if idx \<ge> count then Inl (Panic (panicOutOfBoundMsg idx count)) else Inr ())"

definition getChildPointer_v0 :: "slice \<Rightarrow> 16 word \<Rightarrow> error + 64 word" where
  "getChildPointer_v0 nd idx =
     bindE (checkType_v0 nd internal) (\<lambda>_.
     bindE (checkIdx_v0 nd idx) (\<lambda>_.
     bindE (sliceFrom nd 4) (\<lambda>data.
     bindE (sliceFrom data (unat (idx * 8))) Uint64)))"

definition getKV_v0 :: "slice \<Rightarrow> 16 word \<Rightarrow> error + slice \<times> slice" where
  "getKV_v0 nd idx =
     bindE (checkType_v0 nd internal) (\<lambda>_.
     bindE (checkIdx_v0 nd idx) (\<lambda>_.
     bindE (getCount_v0 nd) (\<lambda>count.
     bindE (sliceFrom nd 4) (\<lambda>s.
     bindE (sliceTo s (unat (2 * count))) (\<lambda>metadata.
     bindE (sliceFrom metadata (unat (idx * 2))) (\<lambda>s.
     bindE (sliceTo s 2) (\<lambda>s.
     bindE (Uint16 s) (\<lambda>kvOffset.
     bindE (sliceFrom nd (4 + s_len metadata)) (\<lambda>data.
     bindE (sliceFrom data (unat kvOffset)) (\<lambda>s.
     bindE (sliceTo s 2) (\<lambda>s.
     bindE (Uint16 s) (\<lambda>keyLen.
     bindE (sliceFrom data (unat (kvOffset + keyLen))) (\<lambda>s.
     bindE (sliceTo s 2) (\<lambda>s.
     bindE (Uint16 s) (\<lambda>valueLen.
     bindE (sliceFrom data 4) (\<lambda>s.
     bindE (sliceTo s (unat keyLen)) (\<lambda>k.
     bindE (sliceFrom data (unat (kvOffset + keyLen))) (\<lambda>s.
     bindE (sliceTo s (unat valueLen)) (\<lambda>v.
       Inr (k, v))))))))))))))))))))"

subsection \<open>The leaf page as the layout describes it\<close>

text \<open>
  Modelled from the spec: the source has no encoder of a leaf page, only the accessors
  (the test \<open>TestGetKV\<close> assembles its page by hand, in this same way). The layout:
  the header \<open>type | count | size | 2 bytes reserved\<close>, each field a little-endian
  \<open>uint16\<close>, with \<open>size\<close> the number of bytes used in the page; then \<open>count\<close> offsets of
  2 bytes, relative to the start of the pair region; then the pairs packed one after the
  other, each \<open>key_len(2B) | val_len(2B) | key | val\<close>.
\<close>

definition u16le :: "16 word \<Rightarrow> byte list" where
  "u16le w = [ucast w, ucast (drop_bit 8 w)]"

definition encodeKV :: "byte list \<times> byte list \<Rightarrow> byte list" where
  "encodeKV kv = u16le (of_nat (length (fst kv))) @ u16le (of_nat (length (snd kv))) @ fst kv @ snd kv"

fun kvOffsetsFrom :: "nat \<Rightarrow> (byte list \<times> byte list) list \<Rightarrow> nat list" where
  "kvOffsetsFrom off [] = []"
| "kvOffsetsFrom off (kv # kvs) = off # kvOffsetsFrom (off + length (encodeKV kv)) kvs"

definition leafBody :: "(byte list \<times> byte list) list \<Rightarrow> byte list" where
  "leafBody kvs = concat (map (\<lambda>off. u16le (of_nat off)) (kvOffsetsFrom 0 kvs)) @ concat (map encodeKV kvs)"

definition encodeLeaf :: "(byte list \<times> byte list) list \<Rightarrow> byte list" where
  "encodeLeaf kvs =
     u16le (ucast leaf) @ u16le (of_nat (length kvs)) @ u16le (of_nat (8 + length (leafBody kvs)))
       @ [0, 0] @ leafBody kvs"

text \<open>The bytes of an ASCII string.\<close>

definition ascii :: "string \<Rightarrow> byte list" where
  "ascii s = map of_char s"

text \<open>The bytes that a returned pair of slices shows.\<close>

definition kvBytes :: "error + slice \<times> slice \<Rightarrow> error + byte list \<times> byte list" where
  "kvBytes r = (case r of Inl e \<Rightarrow> Inl e | Inr (k, v) \<Rightarrow> Inr (bytes k, bytes v))"

text \<open>The pairs of the spec's example scenario 3.\<close>

definition examplePairs :: "(byte list \<times> byte list) list" where
  "examplePairs = [(ascii ''alpha'', ascii ''1''), (ascii ''beta'', ascii ''22'')]"

section \<open>Runs of calls\<close>

text \<open>
  Two outcomes of the coin: \<open>allTails\<close> makes every \<open>rand.Intn(2)\<close> return 0, so the tower
  has height 1; \<open>allHeads\<close> makes every one return 1, so the tower has the full height 16.
\<close>

definition allTails :: "nat \<Rightarrow> nat" where
  "allTails = (\<lambda>_. 0)"

definition allHeads :: "nat \<Rightarrow> nat" where
  "allHeads = (\<lambda>_. 1)"

text \<open>A sequence of calls of the exported methods of one \<open>skipList\<close>, each with its coin.\<close>

datatype 'v call =
    InsertCall string "'v option" "nat \<Rightarrow> nat"
  | UpdateCall string "'v option" "nat \<Rightarrow> nat"
  | DeleteCall string

fun runCall :: "'v skipList option \<Rightarrow> 'v call \<Rightarrow> (error + 'v skipList option) option" where
  "runCall sto (InsertCall k v rnd) = Insert sto k v rnd"
| "runCall sto (UpdateCall k v rnd) = Update sto k v rnd"
| "runCall sto (DeleteCall k) = Delete sto k"

fun runCalls :: "'v skipList option \<Rightarrow> 'v call list \<Rightarrow> (error + 'v skipList option) option" where
  "runCalls sto [] = ok sto"
| "runCalls sto (c # cs) = bindR (runCall sto c) (\<lambda>sto'. runCalls sto' cs)"

definition SearchAfter :: "'v call list \<Rightarrow> string \<Rightarrow> (error + 'v option) option" where
  "SearchAfter cs k = bindR (runCalls (Some NewSkipList) cs) (\<lambda>sto. Search sto k)"

definition GetSizeAfter :: "'v call list \<Rightarrow> (error + 64 word option) option" where
  "GetSizeAfter cs = bindR (runCalls (Some NewSkipList) cs) (\<lambda>sto. ok (map_option GetSize sto))"

text \<open>A sequence of \<open>Update\<close> calls on one \<open>Skiplist\<close> of package memtable.\<close>

fun updates_mt :: "Skiplist \<Rightarrow> (string \<times> string option \<times> (nat \<Rightarrow> nat)) list \<Rightarrow> (error + Skiplist) option" where
  "updates_mt st [] = ok st"
| "updates_mt st ((k, v, rnd) # us) = bindR (Update_mt st k v rnd) (\<lambda>(st', b). updates_mt st' us)"

text \<open>\<open>st.Get(key)\<close> and then \<open>GetVal()\<close> on the node: \<open>None\<close> when no node is found.\<close>

definition GetVal :: "Skiplist \<Rightarrow> string \<Rightarrow> (error + string option option) option" where
  "GetVal st k =
     bindR (Get st k) (\<lambda>nd.
       if nd = None then ok None else bindR (lift (valOf (st_nodes st) nd)) (\<lambda>v. ok (Some v)))"

definition GetValAfter :: "(string \<times> string option \<times> (nat \<Rightarrow> nat)) list \<Rightarrow> string \<Rightarrow> (error + string option option) option" where
  "GetValAfter us k = bindR (updates_mt NewSkipList_mt us) (\<lambda>st. GetVal st k)"

definition GetLenAfter :: "(string \<times> string option \<times> (nat \<Rightarrow> nat)) list \<Rightarrow> (error + 32 word) option" where
  "GetLenAfter us = bindR (updates_mt NewSkipList_mt us) (\<lambda>st. ok (GetLen st))"

text \<open>A sequence of \<open>Update\<close> and \<open>Delete\<close> calls on a memtable with threshold \<open>thr\<close>.\<close>

datatype mcall =
    UpdateM string "string option" "nat \<Rightarrow> nat"
  | DeleteM string "nat \<Rightarrow> nat"

fun runMCall :: "32 word \<Rightarrow> memtable \<Rightarrow> mcall \<Rightarrow> (error + memtable) option" where
  "runMCall thr mt (UpdateM k v rnd) = bindR (Update_thr thr mt k v rnd) (\<lambda>(mt', b). ok mt')"
| "runMCall thr mt (DeleteM k rnd) = bindR (Delete_thr thr mt k rnd) (\<lambda>(mt', b). ok mt')"

fun runMCalls :: "32 word \<Rightarrow> memtable \<Rightarrow> mcall list \<Rightarrow> (error + memtable) option" where
  "runMCalls thr mt [] = ok mt"
| "runMCalls thr mt (c # cs) = bindR (runMCall thr mt c) (\<lambda>mt'. runMCalls thr mt' cs)"

definition GenerationsAfter :: "32 word \<Rightarrow> mcall list \<Rightarrow> (error + nat) option" where
  "GenerationsAfter thr cs = bindR (runMCalls thr NewMemtable cs) (\<lambda>mt. ok (length (skiplists mt)))"

definition GetAfter :: "32 word \<Rightarrow> mcall list \<Rightarrow> string \<Rightarrow> (error + string option \<times> bool) option" where
  "GetAfter thr cs k = bindR (runMCalls thr NewMemtable cs) (\<lambda>mt. Get_memtable mt k)"

text \<open>\<open>GetSize()\<close> of every generation after the calls, newest first.\<close>

definition SizesAfter :: "32 word \<Rightarrow> mcall list \<Rightarrow> (error + 32 word list) option" where
  "SizesAfter thr cs = bindR (runMCalls thr NewMemtable cs) (\<lambda>mt. ok (map GetSize_mt (skiplists mt)))"

section \<open>Notions used in the statements\<close>

text \<open>
  \<open>chain h l p ns q\<close>: following the links of level \<open>l\<close> from the pointer \<open>p\<close> visits the
  nodes \<open>ns\<close> in this order and then arrives at the pointer \<open>q\<close>.
\<close>

fun chain :: "'v node list \<Rightarrow> nat \<Rightarrow> ptr \<Rightarrow> nat list \<Rightarrow> ptr \<Rightarrow> bool" where
  "chain h l p [] q = (p = q)"
| "chain h l p (n # ns) q =
     (p = Some n \<and> (case nextOf h (Some n) l of Inl e \<Rightarrow> False | Inr p' \<Rightarrow> chain h l p' ns q))"

text \<open>The pair that \<open>getKey\<close> and \<open>getVal\<close> give while the cursor stands on node \<open>n\<close>.\<close>

definition emitted :: "string node list \<Rightarrow> nat \<Rightarrow> string \<times> string" where
  "emitted h n = (key (h ! n), case val (h ! n) of None \<Rightarrow> [] | Some bs \<Rightarrow> bs)"

text \<open>The flush of the oldest generation: take the iterator, if there is one, and drain it.\<close>

definition drainOldest :: "memtable \<Rightarrow> (error + (string \<times> string) list option) option" where
  "drainOldest mt =
     (case getLastIterator mt of
        Inl e \<Rightarrow> panic e
      | Inr None \<Rightarrow> ok None
      | Inr (Some it) \<Rightarrow> bindR (drain it) (\<lambda>kvs. ok (Some kvs)))"

definition DrainOldestAfter :: "32 word \<Rightarrow> mcall list \<Rightarrow> (error + (string \<times> string) list option) option" where
  "DrainOldestAfter thr cs = bindR (runMCalls thr NewMemtable cs) drainOldest"

text \<open>A pointer to a node whose tower has a slot at level \<open>l\<close>.\<close>

definition hasLevel :: "'v node list \<Rightarrow> ptr \<Rightarrow> nat \<Rightarrow> bool" where
  "hasLevel h p l = (case nextOf h p l of Inl e \<Rightarrow> False | Inr q \<Rightarrow> True)"

text \<open>The head sentinel of a generation has the full tower that \<open>NewSkipList\<close> gives it.\<close>

definition fullHead :: "Skiplist \<Rightarrow> bool" where
  "fullHead g = (case deref (st_nodes g) (st_head g) of
                   Inl e \<Rightarrow> False | Inr n \<Rightarrow> length (nexts n) = maxHeight)"

text \<open>Two arenas with the same nodes, keys, values and tower heights: only links differ.\<close>

definition sameShape :: "'v node list \<Rightarrow> 'v node list \<Rightarrow> bool" where
  "sameShape h h' \<longleftrightarrow>
     length h' = length h \<and>
     (\<forall>a<length h. length (nexts (h' ! a)) = length (nexts (h ! a))
        \<and> key (h' ! a) = key (h ! a) \<and> val (h' ! a) = val (h ! a))"

text \<open>A coin that comes up heads \<open>n\<close> times and tails ever after: the sampled height is
  \<open>n + 1\<close>, capped at \<open>maxHeight\<close>.\<close>

definition headsThenTails :: "nat \<Rightarrow> nat \<Rightarrow> nat" where
  "headsThenTails n = (\<lambda>i. if i < n then 1 else 0)"

subsection \<open>The invariant of the linked levels\<close>

text \<open>The nodes of one level, given as the list \<open>ns\<close> of their arena indices in chain
  order, split at a key \<open>k\<close>: those with a smaller key, and the rest. The left bound of a
  search for \<open>k\<close> on this level is the last node before the split (the head when there is
  none), the right bound the first node after it (the tail when there is none).\<close>

definition below :: "'v node list \<Rightarrow> string \<Rightarrow> nat list \<Rightarrow> nat list" where
  "below h k ns = takeWhile (\<lambda>n. key (h ! n) < k) ns"

definition notBelow :: "'v node list \<Rightarrow> string \<Rightarrow> nat list \<Rightarrow> nat list" where
  "notBelow h k ns = dropWhile (\<lambda>n. key (h ! n) < k) ns"

definition predAt :: "'v node list \<Rightarrow> nat \<Rightarrow> string \<Rightarrow> nat list \<Rightarrow> nat" where
  "predAt h hp k ns = last (hp # below h k ns)"

definition succAt :: "'v node list \<Rightarrow> nat \<Rightarrow> string \<Rightarrow> nat list \<Rightarrow> nat" where
  "succAt h tp k ns = hd (notBelow h k ns @ [tp])"

text \<open>Level \<open>l\<close> is in order: from the head's slot \<open>l\<close> the links run through exactly the
  nodes \<open>ns\<close> to the tail, the keys strictly ascending, the sentinels not among them.\<close>

definition levelOK :: "'v node list \<Rightarrow> nat \<Rightarrow> nat \<Rightarrow> nat \<Rightarrow> nat list \<Rightarrow> bool" where
  "levelOK h hp tp l ns \<longleftrightarrow>
     (case nextOf h (Some hp) l of Inl e \<Rightarrow> False | Inr p \<Rightarrow> chain h l p ns (Some tp))
     \<and> sorted_wrt (<) (map (\<lambda>n. key (h ! n)) ns) \<and> hp \<notin> set ns \<and> tp \<notin> set ns"

text \<open>All \<open>maxHeight\<close> levels are in order, \<open>lv ! l\<close> listing the nodes of level \<open>l\<close>; every
  node of a level is on the level below it; the tail carries no value.\<close>

definition wfList :: "'v node list \<Rightarrow> nat \<Rightarrow> nat \<Rightarrow> nat list list \<Rightarrow> bool" where
  "wfList h hp tp lv \<longleftrightarrow>
     hp \<noteq> tp \<and> tp < length h \<and> val (h ! tp) = None \<and> length lv = maxHeight
     \<and> list_all (\<lambda>l. levelOK h hp tp l (lv ! l)) [0..<maxHeight]
     \<and> list_all (\<lambda>l. set (lv ! Suc l) \<subseteq> set (lv ! l)) [0..<maxHeight - 1]"

text \<open>A \<open>skipList\<close> in order: both sentinels allocated, the levels in order, and the live
  count zero only when no linked node carries a value.\<close>

definition wellFormed :: "'v skipList \<Rightarrow> nat list list \<Rightarrow> bool" where
  "wellFormed st lv \<longleftrightarrow>
     (case sl_head st of None \<Rightarrow> False | Some hp \<Rightarrow>
        (case sl_tail st of None \<Rightarrow> False | Some tp \<Rightarrow> wfList (sl_nodes st) hp tp lv))
     \<and> (sl_size st = 0 \<longrightarrow> list_all (\<lambda>n. val (sl_nodes st ! n) = None) (lv ! 0))"

text \<open>The current value of \<open>k\<close> among the nodes \<open>ns\<close>: the value of the node that carries
  the key, nil when that node is a tombstone and nil when there is no such node.\<close>

definition current :: "'v node list \<Rightarrow> nat list \<Rightarrow> string \<Rightarrow> 'v option" where
  "current h ns k = (case find (\<lambda>n. key (h ! n) = k) ns of None \<Rightarrow> None | Some n \<Rightarrow> val (h ! n))"

text \<open>The levels after a node with key \<open>k\<close> and a tower of \<open>n\<close> slots has been allocated at
  the end of the arena \<open>h\<close> and linked in: on each of the lowest \<open>n\<close> levels it stands
  between the nodes with smaller keys and the rest.\<close>

definition linked :: "'v node list \<Rightarrow> string \<Rightarrow> nat \<Rightarrow> nat list list \<Rightarrow> nat list list" where
  "linked h k n lv =
     map (\<lambda>l. if l < n then below h k (lv ! l) @ length h # notBelow h k (lv ! l) else lv ! l)
       [0..<maxHeight]"

section \<open>Auxiliary facts\<close>

lemma bindR_simps [simp]:
  "bindR None f = None"
  "bindR (Some (Inl e)) f = Some (Inl e)"
  "bindR (Some (Inr x)) f = f x"
  by (simp_all add: bindR_def)

lemma bindR_eq_ok:
  "bindR m f = ok y \<longleftrightarrow> (\<exists>x. m = ok x \<and> f x = ok y)"
  by (auto simp: bindR_def split: option.splits sum.splits)

lemma nextOf_valid:
  "nextOf h (Some n) l = Inr p \<Longrightarrow> n < length h \<and> l < length (nexts (h ! n)) \<and> p = nexts (h ! n) ! l"
  by (auto simp: nextOf_def deref_def split: if_splits)

lemma hasLevel_iff:
  "hasLevel h p l \<longleftrightarrow> (\<exists>a. p = Some a \<and> a < length h \<and> l < length (nexts (h ! a)))"
  by (auto simp: hasLevel_def nextOf_def deref_def split: option.splits sum.splits)

lemma nextOf_hasLevel: "nextOf h p l = Inr q \<Longrightarrow> hasLevel h p l"
  by (simp add: hasLevel_def)

lemma hasLevel_append: "hasLevel h p l \<Longrightarrow> hasLevel (h @ xs) p l"
  by (auto simp: hasLevel_iff nth_append)

lemma fullHead_hasLevel: "fullHead g \<Longrightarrow> \<forall>l<maxHeight. hasLevel (st_nodes g) (st_head g) l"
  by (auto simp: fullHead_def hasLevel_iff deref_def split: option.splits sum.splits if_splits)

subsection \<open>The sampled height\<close>

lemma liftLayersFrom_bounds:
  "layer \<le> liftLayersFrom rnd layer \<and> (layer \<le> maxHeight \<longrightarrow> liftLayersFrom rnd layer \<le> maxHeight)"
proof (induction rnd layer rule: liftLayersFrom.induct)
  case (1 rnd layer)
  show ?case
  proof (cases "layer < maxHeight \<and> rnd (layer - 1) \<noteq> 0")
    case True
    with 1 have "layer + 1 \<le> liftLayersFrom rnd (layer + 1)"
      and "liftLayersFrom rnd (layer + 1) \<le> maxHeight" by auto
    moreover have "liftLayersFrom rnd layer = liftLayersFrom rnd (layer + 1)"
      using True by (subst liftLayersFrom.simps) simp
    ultimately show ?thesis by simp
  next
    case False
    then have "liftLayersFrom rnd layer = layer"
      by (subst liftLayersFrom.simps) auto
    then show ?thesis by simp
  qed
qed

lemma liftLayers_range: "1 \<le> liftLayers rnd \<and> liftLayers rnd \<le> maxHeight"
  using liftLayersFrom_bounds[of 1 rnd] by (simp add: liftLayers_def maxHeight_def)

subsection \<open>What a search that returns has read\<close>

text \<open>
  Whenever \<open>narrowDownBound\<close> returns a pair, the second node is the successor of the
  first at that level: the bounds that \<open>searchBounds\<close> hands to the splice loop are
  nodes whose towers reach their level.
\<close>

lemma narrowDownLoop_linked:
  assumes "narrowDownLoop h hp tp rb k l cur nxt = Some r"
  shows "nextOf h cur l = Inr nxt \<longrightarrow> (\<forall>c n. r = Inr (c, n) \<longrightarrow> nextOf h c l = Inr n)"
proof (rule narrowDownLoop.raw_induct[OF _ assms,
        where P="\<lambda>h hp tp rb k l cur nxt r.
          nextOf h cur l = Inr nxt \<longrightarrow> (\<forall>c n. r = Inr (c, n) \<longrightarrow> nextOf h c l = Inr n)"])
  fix loop :: "'a node list \<Rightarrow> ptr \<Rightarrow> ptr \<Rightarrow> ptr \<Rightarrow> string \<Rightarrow> nat \<Rightarrow> ptr \<Rightarrow> ptr \<Rightarrow> (error + ptr \<times> ptr) option"
  fix h hp tp rb k l cur nxt r
  assume IH: "\<And>h hp tp rb k l cur nxt r. loop h hp tp rb k l cur nxt = Some r \<Longrightarrow>
                nextOf h cur l = Inr nxt \<longrightarrow> (\<forall>c n. r = Inr (c, n) \<longrightarrow> nextOf h c l = Inr n)"
  assume body: "(if nxt = rb then Some (Inr (cur, nxt))
      else case (if cur = hp then Inr True
                 else case keyOf h cur of Inl e \<Rightarrow> Inl e | Inr ck \<Rightarrow> Inr (ck \<le> k)) of
             Inl e \<Rightarrow> Some (Inl e)
           | Inr c1 \<Rightarrow>
              (case (if \<not> c1 then Inr False
                     else if nxt = tp then Inr True
                     else case keyOf h nxt of Inl e \<Rightarrow> Inl e | Inr nk \<Rightarrow> Inr (nk \<ge> k)) of
                 Inl e \<Rightarrow> Some (Inl e)
               | Inr c2 \<Rightarrow>
                  if c2 then Some (Inr (cur, nxt))
                  else (case nextOf h nxt l of
                          Inl e \<Rightarrow> Some (Inl e)
                        | Inr next' \<Rightarrow> loop h hp tp rb k l nxt next'))) = Some r"
  show "nextOf h cur l = Inr nxt \<longrightarrow> (\<forall>c n. r = Inr (c, n) \<longrightarrow> nextOf h c l = Inr n)"
  proof (intro impI allI)
    fix c n assume lk: "nextOf h cur l = Inr nxt" and r: "r = Inr (c, n)"
    consider (stop) "r = Inr (cur, nxt)"
      | (go) next' where "nextOf h nxt l = Inr next'" "loop h hp tp rb k l nxt next' = Some r"
      using body r by (simp split: if_splits sum.splits)
    then show "nextOf h c l = Inr n"
    proof cases
      case stop
      then show ?thesis using lk r by simp
    next
      case go
      from IH[OF go(2)] go(1) r show ?thesis by simp
    qed
  qed
qed

lemma narrowDownBound_linked:
  assumes "narrowDownBound h hp tp lb rb k l = ok (c, n)"
  shows "nextOf h c l = Inr n"
  using assms narrowDownLoop_linked[of h hp tp rb k l lb _ "Inr (c, n)"]
  by (auto simp: narrowDownBound_def split: sum.splits)

lemma searchLevels_linked:
  assumes "searchLevels h hp tp k i lbs rbs = ok (lbs', rbs')"
      and "i < length lbs" "i < length rbs"
  shows "length lbs' = length lbs \<and> length rbs' = length rbs
         \<and> (\<forall>j\<le>i. nextOf h (lbs' ! j) j = Inr (rbs' ! j))
         \<and> (\<forall>j>i. lbs' ! j = lbs ! j \<and> rbs' ! j = rbs ! j)"
  using assms
proof (induction i arbitrary: lbs rbs)
  case 0
  then obtain c n where nb: "narrowDownBound h hp tp (lbs ! 0) (rbs ! 0) k 0 = ok (c, n)"
    and r: "lbs' = lbs[0 := c]" "rbs' = rbs[0 := n]"
    by (auto simp: bindR_eq_ok)
  from narrowDownBound_linked[OF nb] show ?case using r 0 by auto
next
  case (Suc i)
  then obtain c n where nb: "narrowDownBound h hp tp (lbs ! Suc i) (rbs ! Suc i) k (Suc i) = ok (c, n)"
    and rec: "searchLevels h hp tp k i (lbs[Suc i := c, i := c]) (rbs[Suc i := n, i := n]) = ok (lbs', rbs')"
    by (auto simp: bindR_eq_ok)
  have ih: "length lbs' = length lbs \<and> length rbs' = length rbs
     \<and> (\<forall>j\<le>i. nextOf h (lbs' ! j) j = Inr (rbs' ! j))
     \<and> (\<forall>j>i. lbs' ! j = (lbs[Suc i := c, i := c]) ! j \<and> rbs' ! j = (rbs[Suc i := n, i := n]) ! j)"
    using Suc.IH[OF rec] Suc.prems by simp
  have top: "lbs' ! Suc i = c" "rbs' ! Suc i = n"
    using ih Suc.prems by auto
  show ?case
  proof (intro conjI allI impI)
    fix j assume "j \<le> Suc i"
    then show "nextOf h (lbs' ! j) j = Inr (rbs' ! j)"
      using ih top narrowDownBound_linked[OF nb] by (cases "j = Suc i") auto
  next
    fix j assume "Suc i < j"
    then show "lbs' ! j = lbs ! j" using ih by auto
  next
    fix j assume "Suc i < j"
    then show "rbs' ! j = rbs ! j" using ih by auto
  qed (use ih in auto)
qed

lemma searchBoundsOn_linked:
  assumes "searchBoundsOn h hp tp z k = ok (lbs, rbs)"
  shows "length lbs = maxHeight \<and> length rbs = maxHeight
         \<and> (if z then lbs = replicate maxHeight hp \<and> rbs = replicate maxHeight tp
            else (\<forall>j<maxHeight. nextOf h (lbs ! j) j = Inr (rbs ! j)))"
proof (cases z)
  case True
  then show ?thesis using assms by (auto simp: searchBoundsOn_def initBound_def)
next
  case False
  with assms obtain top lbs1 rbs1 c n where
    sl: "searchLevels h hp tp k (maxHeight - 1) ((initBound hp)[maxHeight - 1 := hp])
           ((initBound tp)[maxHeight - 1 := top]) = ok (lbs1, rbs1)"
    and nb: "narrowDownBound h hp tp (lbs1 ! 0) (rbs1 ! 0) k 0 = ok (c, n)"
    and r: "lbs = lbs1[0 := c]" "rbs = rbs1[0 := n]"
    by (auto simp: searchBoundsOn_def Let_def bindR_eq_ok split: sum.splits)
  have l1: "length lbs1 = maxHeight \<and> length rbs1 = maxHeight
         \<and> (\<forall>j\<le>maxHeight - 1. nextOf h (lbs1 ! j) j = Inr (rbs1 ! j))"
    using searchLevels_linked[OF sl] by (simp add: initBound_def maxHeight_def)
  have "\<forall>j<maxHeight. nextOf h (lbs ! j) j = Inr (rbs ! j)"
  proof (intro allI impI)
    fix j assume j: "j < maxHeight"
    show "nextOf h (lbs ! j) j = Inr (rbs ! j)"
    proof (cases j)
      case 0
      then show ?thesis using r l1 narrowDownBound_linked[OF nb] by (simp add: maxHeight_def)
    next
      case (Suc j')
      then show ?thesis using r l1 j by simp
    qed
  qed
  then show ?thesis using False r l1 by simp
qed

lemma searchWithBoundsOn_found:
  assumes "searchWithBoundsOn h hp k lbs rbs = Inr (Some n)"
  shows "n < length h \<and> key (h ! n) = k"
  using assms
  by (auto simp: searchWithBoundsOn_def keyOf_def deref_def
        split: if_splits sum.splits option.splits bool.splits)

lemma Get_found_valid:
  assumes "Get st k = ok (Some n)"
  shows "n < length (st_nodes st)"
proof -
  from assms obtain lbs rbs where
    "lift (searchWithBounds_mt st k lbs rbs) = ok (Some n)"
    by (auto simp: Get_def bindR_eq_ok)
  then have "searchWithBoundsOn (st_nodes st) (st_head st) k lbs rbs = Inr (Some n)"
    by (simp add: searchWithBounds_mt_def)
  then show ?thesis using searchWithBoundsOn_found by blast
qed

subsection \<open>The splice loop\<close>

lemma sameShape_refl: "sameShape h h"
  by (simp add: sameShape_def)

lemma sameShape_trans: "sameShape h h1 \<Longrightarrow> sameShape h1 h2 \<Longrightarrow> sameShape h h2"
  by (simp add: sameShape_def)

lemma sameShape_hasLevel: "sameShape h h' \<Longrightarrow> hasLevel h' p l = hasLevel h p l"
  by (auto simp: sameShape_def hasLevel_iff)

lemma setNext_ok:
  assumes "hasLevel h p l"
  shows "\<exists>h'. setNext h p l q = Inr h' \<and> sameShape h h'"
proof -
  from assms obtain a where a: "p = Some a" "a < length h" "l < length (nexts (h ! a))"
    by (auto simp: hasLevel_iff)
  then show ?thesis
    by (auto simp: setNext_def sameShape_def nth_list_update)
qed

lemma setNext_same:
  "setNext h p l q = Inr h' \<Longrightarrow> nextOf h' p l = Inr q"
  by (auto simp: setNext_def nextOf_def deref_def split: option.splits if_splits)

lemma setNext_other:
  "setNext h p l q = Inr h' \<Longrightarrow> p \<noteq> x \<or> l \<noteq> i \<Longrightarrow> nextOf h' x i = nextOf h x i"
  by (auto simp: setNext_def nextOf_def deref_def nth_list_update split: option.splits if_splits)

lemma spliceLevels_ok:
  assumes "\<forall>i\<in>set levels. i < length lbs \<and> i < length rbs \<and> hasLevel h (lbs ! i) i \<and> hasLevel h nd i"
  shows "\<exists>h'. spliceLevels h nd lbs rbs levels = Inr h' \<and> sameShape h h'"
  using assms
proof (induction levels arbitrary: h)
  case Nil
  show ?case by (simp add: sameShape_refl)
next
  case (Cons i levels)
  from Cons.prems have i: "i < length lbs" "i < length rbs" "hasLevel h (lbs ! i) i" "hasLevel h nd i"
    by auto
  from setNext_ok[OF i(3)] obtain h1 where h1: "setNext h (lbs ! i) i nd = Inr h1" "sameShape h h1"
    by blast
  have "hasLevel h1 nd i" using i(4) sameShape_hasLevel[OF h1(2)] by simp
  from setNext_ok[OF this] obtain h2 where h2: "setNext h1 nd i (rbs ! i) = Inr h2" "sameShape h1 h2"
    by blast
  have s02: "sameShape h h2" using h1(2) h2(2) by (rule sameShape_trans)
  have "\<forall>j\<in>set levels. j < length lbs \<and> j < length rbs \<and> hasLevel h2 (lbs ! j) j \<and> hasLevel h2 nd j"
    using Cons.prems sameShape_hasLevel[OF s02] by simp
  from Cons.IH[OF this] obtain h' where h': "spliceLevels h2 nd lbs rbs levels = Inr h'" "sameShape h2 h'"
    by blast
  show ?case using i h1 h2 h' s02 sameShape_trans by auto
qed

lemma spliceLevels_frame:
  assumes "spliceLevels h nd lbs rbs levels = Inr h'" and "i \<notin> set levels"
  shows "nextOf h' x i = nextOf h x i"
  using assms
proof (induction levels arbitrary: h)
  case Nil
  then show ?case by simp
next
  case (Cons j levels)
  from Cons.prems obtain h1 h2 where
    s: "setNext h (lbs ! j) j nd = Inr h1" "setNext h1 nd j (rbs ! j) = Inr h2"
       "spliceLevels h2 nd lbs rbs levels = Inr h'"
    by (auto split: if_splits sum.splits)
  have ij: "j \<noteq> i" "i \<notin> set levels" using Cons.prems by auto
  have "nextOf h' x i = nextOf h2 x i" using Cons.IH[OF s(3) ij(2)] .
  also have "\<dots> = nextOf h1 x i" using setNext_other[OF s(2)] ij by blast
  also have "\<dots> = nextOf h x i" using setNext_other[OF s(1)] ij by blast
  finally show ?case .
qed

lemma spliceLevels_link:
  assumes "spliceLevels h nd lbs rbs levels = Inr h'" and "i \<in> set levels" and "distinct levels"
      and "lbs ! i \<noteq> nd"
  shows "nextOf h' (lbs ! i) i = Inr nd \<and> nextOf h' nd i = Inr (rbs ! i)"
  using assms
proof (induction levels arbitrary: h)
  case Nil
  then show ?case by simp
next
  case (Cons j levels)
  from Cons.prems obtain h1 h2 where
    s: "setNext h (lbs ! j) j nd = Inr h1" "setNext h1 nd j (rbs ! j) = Inr h2"
       "spliceLevels h2 nd lbs rbs levels = Inr h'"
    by (auto split: if_splits sum.splits)
  show ?case
  proof (cases "i = j")
    case True
    then have notin: "i \<notin> set levels" using Cons.prems by auto
    have a: "nextOf h2 nd i = Inr (rbs ! i)" using setNext_same[OF s(2)] True by simp
    have "nextOf h1 (lbs ! i) i = Inr nd" using setNext_same[OF s(1)] True by simp
    then have b: "nextOf h2 (lbs ! i) i = Inr nd"
      using setNext_other[OF s(2), of "lbs ! i" i] Cons.prems(4) by auto
    show ?thesis using a b spliceLevels_frame[OF s(3) notin] by simp
  next
    case False
    then show ?thesis using Cons.IH[OF s(3)] Cons.prems by auto
  qed
qed

lemma rotate_nonempty: "skiplists (rotate thr mt) \<noteq> []"
  by (auto simp: rotate_def newSkiplist_def)

subsection \<open>The iterator on a chain\<close>

lemma drainFrom_chain:
  assumes "chain (st_nodes (it_st it)) 0 (cursor it) ns (st_tail (it_st it))"
      and "st_tail (it_st it) \<notin> Some ` set ns"
  shows "drainFrom it out = ok (out @ map (emitted (st_nodes (it_st it))) ns)"
  using assms
proof (induction ns arbitrary: it out)
  case Nil
  then show ?case
    by (subst drainFrom.simps) (simp add: hasNext_def)
next
  case (Cons n ns)
  from Cons.prems(1) obtain p where c: "cursor it = Some n"
    and nx: "nextOf (st_nodes (it_st it)) (Some n) 0 = Inr p"
    and ch: "chain (st_nodes (it_st it)) 0 p ns (st_tail (it_st it))"
    by (auto split: sum.splits)
  from nextOf_valid[OF nx] have n: "n < length (st_nodes (it_st it))" by simp
  have hn: "hasNext it" using c Cons.prems(2) by (auto simp: hasNext_def)
  let ?it' = "it\<lparr>cursor := p\<rparr>"
  have step: "drainFrom it out = drainFrom ?it' (out @ [emitted (st_nodes (it_st it)) n])"
    by (subst drainFrom.simps)
       (simp add: hn getKey_def getVal_def next_def keyOf_def valOf_def deref_def c n nx emitted_def)
  have "drainFrom ?it' (out @ [emitted (st_nodes (it_st it)) n])
        = ok ((out @ [emitted (st_nodes (it_st it)) n]) @ map (emitted (st_nodes (it_st ?it'))) ns)"
    by (rule Cons.IH) (use ch Cons.prems(2) in auto)
  with step show ?case by simp
qed

subsection \<open>A search on levels that are in order\<close>

lemma chain_append:
  "chain h l p (xs @ ys) q \<longleftrightarrow> (\<exists>m. chain h l p xs m \<and> chain h l m ys q)"
  by (induction xs arbitrary: p) (auto split: sum.splits)

lemma chain_valid:
  "chain h l p ns q \<Longrightarrow> n \<in> set ns \<Longrightarrow> n < length h \<and> l < length (nexts (h ! n))"
proof (induction ns arbitrary: p)
  case Nil
  then show ?case by simp
next
  case (Cons a ns)
  then show ?case by (auto split: sum.splits dest: nextOf_valid)
qed

lemma chain_first:
  "chain h l p ns q \<Longrightarrow> p = (if ns = [] then q else Some (hd ns))"
  by (cases ns) auto

lemma narrowDownBound_chain:
  assumes "nextOf h (Some c) l = Inr p" and "chain h l p (us @ vs) (Some tp)"
      and "\<forall>n\<in>set us. key (h ! n) < k \<and> n \<noteq> tp \<and> Some n \<noteq> rb"
      and "vs \<noteq> [] \<longrightarrow> k \<le> key (h ! hd vs)"
      and "c = hp \<or> key (h ! c) \<le> k"
  shows "narrowDownBound h (Some hp) (Some tp) (Some c) rb k l
           = ok (Some (last (c # us)), Some (hd (vs @ [tp])))"
  using assms
proof (induction us arbitrary: c p)
  case Nil
  have c: "c < length h" using nextOf_valid[OF Nil.prems(1)] by simp
  have p: "p = Some (hd (vs @ [tp]))"
    using chain_first[of h l p vs "Some tp"] Nil.prems(2) by (cases vs) auto
  have c1: "(if Some c = Some hp then Inr True
             else case keyOf h (Some c) of Inl e \<Rightarrow> Inl e | Inr ck \<Rightarrow> Inr (ck \<le> k)) = Inr True"
    using Nil.prems(5) c by (auto simp: keyOf_def deref_def)
  have c2: "p \<noteq> Some tp \<Longrightarrow> keyOf h p = Inr (key (h ! hd vs)) \<and> k \<le> key (h ! hd vs)"
  proof -
    assume "p \<noteq> Some tp"
    then have ne: "vs \<noteq> []" using p by (cases vs) auto
    then have "hd vs \<in> set vs" by simp
    from chain_valid[OF _ this, of h l p "Some tp"] Nil.prems(2) have "hd vs < length h" by simp
    then show ?thesis using p ne Nil.prems(4) by (cases vs) (auto simp: keyOf_def deref_def)
  qed
  show ?case
    unfolding narrowDownBound_def Nil.prems(1)
    apply (simp only: sum.case)
    apply (subst narrowDownLoop.simps)
    using c1 c2 p by (auto simp del: not_le)
next
  case (Cons u us)
  have c: "c < length h" using nextOf_valid[OF Cons.prems(1)] by simp
  from Cons.prems(2) obtain p' where p: "p = Some u" and nu: "nextOf h (Some u) l = Inr p'"
    and ch: "chain h l p' (us @ vs) (Some tp)"
    by (auto split: sum.splits)
  have u: "u < length h" using nextOf_valid[OF nu] by simp
  have ku: "key (h ! u) < k" "u \<noteq> tp" "Some u \<noteq> rb" using Cons.prems(3) by auto
  have c1: "(if Some c = Some hp then Inr True
             else case keyOf h (Some c) of Inl e \<Rightarrow> Inl e | Inr ck \<Rightarrow> Inr (ck \<le> k)) = Inr True"
    using Cons.prems(5) c by (auto simp: keyOf_def deref_def)
  have nk: "\<not> k \<le> key (h ! u)" using ku(1) by simp
  have ih: "narrowDownBound h (Some hp) (Some tp) (Some u) rb k l
              = ok (Some (last (u # us)), Some (hd (vs @ [tp])))"
    by (rule Cons.IH[OF nu ch]) (use Cons.prems ku in auto)
  have step: "narrowDownLoop h (Some hp) (Some tp) rb k l (Some c) (Some u)
              = narrowDownLoop h (Some hp) (Some tp) rb k l (Some u) p'"
    apply (subst narrowDownLoop.simps)
    using c1 ku nk u nu by (simp add: keyOf_def deref_def)
  show ?case
    using ih step by (simp add: narrowDownBound_def Cons.prems(1) p nu)
qed


lemma below_notBelow: "below h k ns @ notBelow h k ns = ns"
  by (simp add: below_def notBelow_def)

lemma below_keys: "n \<in> set (below h k ns) \<Longrightarrow> key (h ! n) < k \<and> n \<in> set ns"
  by (auto simp: below_def dest: set_takeWhileD)

lemma notBelow_hd: "notBelow h k ns \<noteq> [] \<Longrightarrow> k \<le> key (h ! hd (notBelow h k ns))"
  using hd_dropWhile[of "\<lambda>n. key (h ! n) < k" ns] by (simp add: notBelow_def not_less)

lemma notBelow_subset: "set (notBelow h k ns) \<subseteq> set ns"
  using set_dropWhileD by (fastforce simp: notBelow_def)

lemma in_below:
  "sorted_wrt (<) (map (\<lambda>n. key (h ! n)) ns) \<Longrightarrow> n \<in> set ns \<Longrightarrow> key (h ! n) < k
   \<Longrightarrow> n \<in> set (below h k ns)"
  unfolding below_def
proof (induction ns)
  case Nil
  then show ?case by simp
next
  case (Cons a ns)
  show ?case
  proof (cases "n = a")
    case True
    then show ?thesis using Cons.prems by simp
  next
    case False
    then have n: "n \<in> set ns" using Cons.prems by simp
    then have "key (h ! a) < key (h ! n)" using Cons.prems(1) by auto
    then have "key (h ! a) < k" using Cons.prems(3) by simp
    then show ?thesis using Cons n by simp
  qed
qed

lemma predAt_in: "predAt h hp k ns \<in> set (hp # below h k ns)"
  unfolding predAt_def by (rule last_in_set) simp

lemma succAt_notin:
  assumes "tp \<notin> set ms" 
  shows "succAt h tp k ns \<notin> set (below h k ms)"
proof (cases "notBelow h k ns = []")
  case True
  then show ?thesis using assms below_keys[of tp h k ms] by (auto simp: succAt_def)
next
  case False
  then have "k \<le> key (h ! succAt h tp k ns)"
    using notBelow_hd[OF False] by (simp add: succAt_def)
  then show ?thesis using below_keys[of "succAt h tp k ns" h k ms] by auto
qed

lemma narrowDownBound_level:
  assumes lo: "levelOK h hp tp l ns"
      and c: "c \<in> set (hp # below h k ns)"
      and rb: "rb \<notin> Some ` set (below h k ns)"
  shows "narrowDownBound h (Some hp) (Some tp) (Some c) rb k l
           = ok (Some (predAt h hp k ns), Some (succAt h tp k ns))"
proof -
  from lo obtain p0 where p0: "nextOf h (Some hp) l = Inr p0"
    and ch0: "chain h l p0 ns (Some tp)" and tpn: "tp \<notin> set ns" and hpn: "hp \<notin> set ns"
    by (auto simp: levelOK_def split: sum.splits)
  have vs: "notBelow h k ns \<noteq> [] \<longrightarrow> k \<le> key (h ! hd (notBelow h k ns))"
    using notBelow_hd by blast
  show ?thesis
  proof (cases "c = hp")
    case True
    have "narrowDownBound h (Some hp) (Some tp) (Some hp) rb k l
            = ok (Some (last (hp # below h k ns)), Some (hd (notBelow h k ns @ [tp])))"
    proof (rule narrowDownBound_chain[OF p0 _ _ vs])
      show "chain h l p0 (below h k ns @ notBelow h k ns) (Some tp)"
        using ch0 by (simp add: below_notBelow)
      show "\<forall>n\<in>set (below h k ns). key (h ! n) < k \<and> n \<noteq> tp \<and> Some n \<noteq> rb"
        using below_keys[of _ h k ns] tpn rb by auto
    qed simp
    then show ?thesis using True by (simp add: predAt_def succAt_def)
  next
    case False
    then have "c \<in> set (below h k ns)" using c by simp
    then obtain pre us where sp: "below h k ns = pre @ c # us"
      by (meson split_list)
    have "chain h l p0 (pre @ (c # us @ notBelow h k ns)) (Some tp)"
      using ch0 below_notBelow[of h k ns] sp by (metis append.assoc append_Cons)
    then obtain m where "chain h l m (c # us @ notBelow h k ns) (Some tp)"
      using chain_append by blast
    then obtain p' where p': "nextOf h (Some c) l = Inr p'"
      and ch: "chain h l p' (us @ notBelow h k ns) (Some tp)"
      by (auto split: sum.splits)
    have kc: "key (h ! c) < k" using below_keys[of c h k ns] sp by simp
    have "narrowDownBound h (Some hp) (Some tp) (Some c) rb k l
            = ok (Some (last (c # us)), Some (hd (notBelow h k ns @ [tp])))"
    proof (rule narrowDownBound_chain[OF p' ch _ vs])
      show "\<forall>n\<in>set us. key (h ! n) < k \<and> n \<noteq> tp \<and> Some n \<noteq> rb"
        using below_keys[of _ h k ns] tpn rb sp by auto
      show "c = hp \<or> key (h ! c) \<le> k" using kc less_imp_le by blast
    qed
    moreover have "last (c # us) = last (hp # below h k ns)" using sp by simp
    ultimately show ?thesis by (simp add: predAt_def succAt_def)
  qed
qed

lemma wfList_level:
  "wfList h hp tp lv \<Longrightarrow> l < maxHeight \<Longrightarrow> levelOK h hp tp l (lv ! l)"
  by (simp add: wfList_def list_all_iff)

lemma wfList_subset:
  "wfList h hp tp lv \<Longrightarrow> Suc l < maxHeight \<Longrightarrow> set (lv ! Suc l) \<subseteq> set (lv ! l)"
  by (auto simp: wfList_def list_all_iff)

lemma predAt_down:
  assumes wf: "wfList h hp tp lv" and l: "Suc l < maxHeight"
  shows "predAt h hp k (lv ! Suc l) \<in> set (hp # below h k (lv ! l))"
proof (cases "below h k (lv ! Suc l) = []")
  case True
  then show ?thesis by (simp add: predAt_def)
next
  case False
  then have "last (below h k (lv ! Suc l)) \<in> set (below h k (lv ! Suc l))" by simp
  then have a: "key (h ! predAt h hp k (lv ! Suc l)) < k" "predAt h hp k (lv ! Suc l) \<in> set (lv ! Suc l)"
    using below_keys[of "last (below h k (lv ! Suc l))" h k "lv ! Suc l"] False
    by (simp_all add: predAt_def)
  have "predAt h hp k (lv ! Suc l) \<in> set (lv ! l)" using a(2) wfList_subset[OF wf l] by auto
  moreover have "sorted_wrt (<) (map (\<lambda>n. key (h ! n)) (lv ! l))"
    using wfList_level[OF wf, of l] l by (simp add: levelOK_def)
  ultimately show ?thesis using in_below a(1) by fastforce
qed

lemma searchLevels_wf:
  assumes wf: "wfList h hp tp lv"
  shows "i < maxHeight \<Longrightarrow> length lbs = maxHeight \<Longrightarrow> length rbs = maxHeight \<Longrightarrow>
         \<exists>c. lbs ! i = Some c \<and> c \<in> set (hp # below h k (lv ! i)) \<Longrightarrow>
         rbs ! i \<notin> Some ` set (below h k (lv ! i)) \<Longrightarrow>
         \<exists>lbs' rbs'. searchLevels h (Some hp) (Some tp) k i lbs rbs = ok (lbs', rbs')
           \<and> length lbs' = maxHeight \<and> length rbs' = maxHeight
           \<and> (\<forall>j\<le>i. lbs' ! j = Some (predAt h hp k (lv ! j)) \<and> rbs' ! j = Some (succAt h tp k (lv ! j)))
           \<and> (\<forall>j>i. lbs' ! j = lbs ! j \<and> rbs' ! j = rbs ! j)"
proof (induction i arbitrary: lbs rbs)
  case 0
  from 0(4) obtain c where c: "lbs ! 0 = Some c" "c \<in> set (hp # below h k (lv ! 0))" by blast
  have "narrowDownBound h (Some hp) (Some tp) (lbs ! 0) (rbs ! 0) k 0
          = ok (Some (predAt h hp k (lv ! 0)), Some (succAt h tp k (lv ! 0)))"
    unfolding c(1) by (rule narrowDownBound_level[OF wfList_level[OF wf 0(1)] c(2) 0(5)])
  then show ?case using 0(2,3) by (simp add: maxHeight_def)
next
  case (Suc i)
  let ?P = "Some (predAt h hp k (lv ! Suc i))"
  let ?R = "Some (succAt h tp k (lv ! Suc i))"
  from Suc(5) obtain c where c: "lbs ! Suc i = Some c" "c \<in> set (hp # below h k (lv ! Suc i))" by blast
  have nb: "narrowDownBound h (Some hp) (Some tp) (lbs ! Suc i) (rbs ! Suc i) k (Suc i) = ok (?P, ?R)"
    unfolding c(1) by (rule narrowDownBound_level[OF wfList_level[OF wf Suc(2)] c(2) Suc(6)])
  let ?lbs = "lbs[Suc i := ?P, i := ?P]"
  let ?rbs = "rbs[Suc i := ?R, i := ?R]"
  have i: "i < maxHeight" using Suc(2) by simp
  have tpn: "tp \<notin> set (lv ! i)" using wfList_level[OF wf i] by (simp add: levelOK_def)
  have "\<exists>lbs' rbs'. searchLevels h (Some hp) (Some tp) k i ?lbs ?rbs = ok (lbs', rbs')
           \<and> length lbs' = maxHeight \<and> length rbs' = maxHeight
           \<and> (\<forall>j\<le>i. lbs' ! j = Some (predAt h hp k (lv ! j)) \<and> rbs' ! j = Some (succAt h tp k (lv ! j)))
           \<and> (\<forall>j>i. lbs' ! j = ?lbs ! j \<and> rbs' ! j = ?rbs ! j)"
  proof (rule Suc.IH[OF i])
    show "length ?lbs = maxHeight" "length ?rbs = maxHeight" using Suc(3,4) by simp_all
    show "\<exists>c. ?lbs ! i = Some c \<and> c \<in> set (hp # below h k (lv ! i))"
      using predAt_down[OF wf Suc(2), of k] Suc(3) i by simp
    show "?rbs ! i \<notin> Some ` set (below h k (lv ! i))"
      using succAt_notin[OF tpn, of h k "lv ! Suc i"] Suc(4) i by auto
  qed
  then obtain lbs' rbs' where r: "searchLevels h (Some hp) (Some tp) k i ?lbs ?rbs = ok (lbs', rbs')"
    "length lbs' = maxHeight" "length rbs' = maxHeight"
    "\<forall>j\<le>i. lbs' ! j = Some (predAt h hp k (lv ! j)) \<and> rbs' ! j = Some (succAt h tp k (lv ! j))"
    "\<forall>j>i. lbs' ! j = ?lbs ! j \<and> rbs' ! j = ?rbs ! j"
    by blast
  have top: "lbs' ! Suc i = ?P" "rbs' ! Suc i = ?R"
    using r(5) Suc(2,3,4) by auto
  have "\<forall>j\<le>Suc i. lbs' ! j = Some (predAt h hp k (lv ! j)) \<and> rbs' ! j = Some (succAt h tp k (lv ! j))"
    using r(4) top by (auto simp: le_Suc_eq)
  moreover have "\<forall>j>Suc i. lbs' ! j = lbs ! j \<and> rbs' ! j = rbs ! j"
    using r(5) by auto
  ultimately show ?case using nb r(1,2,3) by simp
qed


lemma succAt_level:
  assumes lo: "levelOK h hp tp l ns" and tp: "tp < length h" and ne: "hp \<noteq> tp"
  shows "succAt h tp k ns \<noteq> hp \<and> succAt h tp k ns < length h"
proof (cases "notBelow h k ns = []")
  case True
  then show ?thesis using tp ne by (simp add: succAt_def)
next
  case False
  then have "succAt h tp k ns \<in> set ns"
    using notBelow_subset[of h k ns] by (auto simp: succAt_def)
  moreover from lo obtain p0 where "chain h l p0 ns (Some tp)" "hp \<notin> set ns"
    by (auto simp: levelOK_def split: sum.splits)
  ultimately show ?thesis using chain_valid by fastforce
qed

lemma predAt_level:
  assumes lo: "levelOK h hp tp l ns" and "predAt h hp k ns \<noteq> hp"
  shows "predAt h hp k ns < length h \<and> key (h ! predAt h hp k ns) < k"
proof -
  have "predAt h hp k ns \<in> set (below h k ns)" using predAt_in[of h hp k ns] assms(2) by simp
  then have a: "key (h ! predAt h hp k ns) < k" "predAt h hp k ns \<in> set ns"
    using below_keys by blast+
  from lo obtain p0 where "chain h l p0 ns (Some tp)"
    by (auto simp: levelOK_def split: sum.splits)
  then show ?thesis using a chain_valid by fastforce
qed

lemma searchBoundsOn_wf:
  assumes wf: "wfList h hp tp lv"
      and top: "\<forall>n\<in>set (lv ! (maxHeight - 1)). k \<le> key (h ! n)"
  shows "\<exists>lbs rbs. searchBoundsOn h (Some hp) (Some tp) False k = ok (lbs, rbs)
           \<and> length lbs = maxHeight \<and> length rbs = maxHeight
           \<and> (\<forall>j<maxHeight. lbs ! j = Some (predAt h hp k (lv ! j)) \<and> rbs ! j = Some (succAt h tp k (lv ! j)))"
proof -
  have m: "maxHeight - 1 < maxHeight" by (simp add: maxHeight_def)
  from wfList_level[OF wf m] obtain p where p: "nextOf h (Some hp) (maxHeight - 1) = Inr p"
    by (auto simp: levelOK_def split: sum.splits)
  have bt: "below h k (lv ! (maxHeight - 1)) = []"
    using top by (cases "lv ! (maxHeight - 1)") (auto simp: below_def)
  let ?lbs = "(initBound (Some hp))[maxHeight - 1 := Some hp]"
  let ?rbs = "(initBound (Some tp))[maxHeight - 1 := p]"
  have "\<exists>lbs' rbs'. searchLevels h (Some hp) (Some tp) k (maxHeight - 1) ?lbs ?rbs = ok (lbs', rbs')
           \<and> length lbs' = maxHeight \<and> length rbs' = maxHeight
           \<and> (\<forall>j\<le>maxHeight - 1. lbs' ! j = Some (predAt h hp k (lv ! j)) \<and> rbs' ! j = Some (succAt h tp k (lv ! j)))
           \<and> (\<forall>j>maxHeight - 1. lbs' ! j = ?lbs ! j \<and> rbs' ! j = ?rbs ! j)"
  proof (rule searchLevels_wf[OF wf m])
    show "length ?lbs = maxHeight" "length ?rbs = maxHeight" by (simp_all add: initBound_def)
    show "\<exists>c. ?lbs ! (maxHeight - 1) = Some c \<and> c \<in> set (hp # below h k (lv ! (maxHeight - 1)))"
      by (simp add: initBound_def maxHeight_def)
    show "?rbs ! (maxHeight - 1) \<notin> Some ` set (below h k (lv ! (maxHeight - 1)))"
      unfolding bt by simp
  qed
  then obtain lbs' rbs' where r: "searchLevels h (Some hp) (Some tp) k (maxHeight - 1) ?lbs ?rbs = ok (lbs', rbs')"
    "length lbs' = maxHeight" "length rbs' = maxHeight"
    "\<forall>j\<le>maxHeight - 1. lbs' ! j = Some (predAt h hp k (lv ! j)) \<and> rbs' ! j = Some (succAt h tp k (lv ! j))"
    by blast
  have z: "0 < maxHeight" by (simp add: maxHeight_def)
  have l0: "levelOK h hp tp 0 (lv ! 0)" using wfList_level[OF wf z] .
  have tpn: "tp \<notin> set (lv ! 0)" using l0 by (simp add: levelOK_def)
  have b0: "lbs' ! 0 = Some (predAt h hp k (lv ! 0))" "rbs' ! 0 = Some (succAt h tp k (lv ! 0))"
    using r(4) by simp_all
  have nb: "narrowDownBound h (Some hp) (Some tp) (lbs' ! 0) (rbs' ! 0) k 0
              = ok (Some (predAt h hp k (lv ! 0)), Some (succAt h tp k (lv ! 0)))"
    unfolding b0
    by (rule narrowDownBound_level[OF l0 predAt_in]) (use succAt_notin[OF tpn, of h k "lv ! 0"] in auto)
  have same: "lbs'[0 := Some (predAt h hp k (lv ! 0))] = lbs'" "rbs'[0 := Some (succAt h tp k (lv ! 0))] = rbs'"
    using b0 by (metis list_update_id)+
  have "searchBoundsOn h (Some hp) (Some tp) False k = ok (lbs', rbs')"
    by (simp only: searchBoundsOn_def Let_def if_False p bindR_simps r(1) prod.case nb same)
  moreover have "\<forall>j<maxHeight. lbs' ! j = Some (predAt h hp k (lv ! j)) \<and> rbs' ! j = Some (succAt h tp k (lv ! j))"
    using r(4) by (auto simp: maxHeight_def)
  ultimately show ?thesis using r(2,3) by blast
qed

lemma find_append_None:
  "find P xs = None \<Longrightarrow> find P (xs @ ys) = find P ys"
  by (induction xs) (auto split: if_splits)

lemma find_sorted:
  assumes "sorted_wrt (<) (map (\<lambda>n. key (h ! n)) ns)"
  shows "find (\<lambda>n. key (h ! n) = k) ns
           = (if notBelow h k ns \<noteq> [] \<and> key (h ! hd (notBelow h k ns)) = k
              then Some (hd (notBelow h k ns)) else None)"
proof -
  have b: "find (\<lambda>n. key (h ! n) = k) (below h k ns) = None"
    using below_keys[of _ h k ns] by (auto simp: find_None_iff)
  have split: "find (\<lambda>n. key (h ! n) = k) ns = find (\<lambda>n. key (h ! n) = k) (notBelow h k ns)"
  proof -
    have "find (\<lambda>n. key (h ! n) = k) (below h k ns @ notBelow h k ns)
            = find (\<lambda>n. key (h ! n) = k) (notBelow h k ns)"
      using b by (rule find_append_None)
    then show ?thesis by (simp add: below_notBelow)
  qed
  show ?thesis
  proof (cases "notBelow h k ns")
    case Nil
    then show ?thesis using split by simp
  next
    case (Cons y ys)
    have ky: "k \<le> key (h ! y)" using notBelow_hd[of h k ns] Cons by simp
    have "sorted_wrt (<) (map (\<lambda>n. key (h ! n)) (below h k ns @ y # ys))"
      using assms below_notBelow[of h k ns] Cons by simp
    then have "\<forall>z\<in>set ys. key (h ! y) < key (h ! z)"
      by (auto simp: sorted_wrt_append)
    then have "\<forall>z\<in>set ys. key (h ! z) \<noteq> k" using ky by auto
    then have "find (\<lambda>n. key (h ! n) = k) ys = None" by (simp add: find_None_iff)
    then show ?thesis using split Cons by simp
  qed
qed


lemma current_present:
  "sorted_wrt (<) (map (\<lambda>n. key (h ! n)) ns) \<Longrightarrow> n \<in> set ns \<Longrightarrow> current h ns (key (h ! n)) = val (h ! n)"
proof (induction ns)
  case Nil
  then show ?case by simp
next
  case (Cons a ns)
  show ?case
  proof (cases "key (h ! a) = key (h ! n)")
    case True
    have "n = a"
    proof (rule ccontr)
      assume "n \<noteq> a"
      then have "n \<in> set ns" using Cons.prems(2) by simp
      then have "key (h ! a) < key (h ! n)" using Cons.prems(1) by auto
      then show False using True by simp
    qed
    then show ?thesis by (simp add: current_def)
  next
    case False
    then have "n \<in> set ns" using Cons.prems(2) by auto
    then show ?thesis using Cons False by (simp add: current_def)
  qed
qed

lemma current_absent:
  "k \<notin> (\<lambda>n. key (h ! n)) ` set ns \<Longrightarrow> current h ns k = None"
proof -
  assume "k \<notin> (\<lambda>n. key (h ! n)) ` set ns"
  then have "find (\<lambda>n. key (h ! n) = k) ns = None" by (auto simp: find_None_iff)
  then show ?thesis by (simp add: current_def)
qed

lemma searchWithBoundsOn_wf:
  assumes l0: "levelOK h hp tp 0 ns" and tp: "tp < length h" and ne: "hp \<noteq> tp"
      and lb: "lbs ! 0 = Some (predAt h hp k ns)" and rb: "rbs ! 0 = Some (succAt h tp k ns)"
  shows "searchWithBoundsOn h (Some hp) k lbs rbs
           = Inr (if key (h ! succAt h tp k ns) = k then Some (succAt h tp k ns) else None)"
proof -
  have left: "(if lbs ! 0 \<noteq> Some hp
            then (case keyOf h (lbs ! 0) of Inl e \<Rightarrow> Inl e | Inr lk \<Rightarrow> Inr (lk = k))
            else Inr False) = Inr False"
    using predAt_level[OF l0, of k] lb by (auto simp: keyOf_def deref_def)
  have right: "(if rbs ! 0 \<noteq> Some hp
            then (case keyOf h (rbs ! 0) of Inl e \<Rightarrow> Inl e | Inr rk \<Rightarrow> Inr (rk = k))
            else Inr False) = Inr (key (h ! succAt h tp k ns) = k)"
    using succAt_level[OF l0 tp ne, of k] rb by (auto simp: keyOf_def deref_def)
  show ?thesis
    unfolding searchWithBoundsOn_def left right by (simp add: rb)
qed

subsection \<open>Linking a new node into levels that are in order\<close>

lemma nextOf_append:
  "a < length h \<Longrightarrow> nextOf (h @ xs) (Some a) l = nextOf h (Some a) l"
  by (simp add: nextOf_def deref_def nth_append)

lemma chain_cong:
  "\<forall>x\<in>set ns. nextOf h' (Some x) l = nextOf h (Some x) l \<Longrightarrow> chain h' l p ns q = chain h l p ns q"
  by (induction ns arbitrary: p) (auto split: sum.splits)

lemma spliceLevels_other:
  assumes "spliceLevels h nd lbs rbs levels = Inr h'" and "x \<noteq> nd" and "x \<noteq> lbs ! i"
  shows "nextOf h' x i = nextOf h x i"
  using assms
proof (induction levels arbitrary: h)
  case Nil
  then show ?case by simp
next
  case (Cons j levels)
  from Cons.prems obtain h1 h2 where
    s: "setNext h (lbs ! j) j nd = Inr h1" "setNext h1 nd j (rbs ! j) = Inr h2"
       "spliceLevels h2 nd lbs rbs levels = Inr h'"
    by (auto split: if_splits sum.splits)
  have "nextOf h' x i = nextOf h2 x i" using Cons.IH[OF s(3) Cons.prems(2,3)] .
  also have "\<dots> = nextOf h1 x i" using setNext_other[OF s(2), of x i] Cons.prems(2) by blast
  also have "\<dots> = nextOf h x i" using setNext_other[OF s(1), of x i] Cons.prems(3) by blast
  finally show ?case .
qed

lemma chain_insert:
  assumes "nextOf h (Some c) l = Inr p" and "chain h l p (bs @ vs) q" and "distinct (c # bs @ vs)"
      and "\<forall>x\<in>set (c # bs @ vs). x \<noteq> last (c # bs) \<longrightarrow> nextOf h' (Some x) l = nextOf h (Some x) l"
      and "nextOf h' (Some (last (c # bs))) l = Inr (Some nw)"
      and "nextOf h' (Some nw) l = Inr (if vs = [] then q else Some (hd vs))"
  shows "\<exists>p'. nextOf h' (Some c) l = Inr p' \<and> chain h' l p' (bs @ nw # vs) q"
  using assms
proof (induction bs arbitrary: c p)
  case Nil
  have pm: "p = (if vs = [] then q else Some (hd vs))"
    using chain_first[of h l p vs q] Nil.prems(2) by simp
  have "\<forall>x\<in>set vs. nextOf h' (Some x) l = nextOf h (Some x) l"
    using Nil.prems(3,4) by auto
  then have "chain h' l p vs q" using chain_cong[of vs h' l h p q] Nil.prems(2) by simp
  then show ?case using Nil.prems(5,6) pm by simp
next
  case (Cons b bs)
  from Cons.prems(2) obtain p2 where
    pb: "p = Some b" and nb: "nextOf h (Some b) l = Inr p2" and ch: "chain h l p2 (bs @ vs) q"
    by (auto split: sum.splits)
  have cl: "c \<noteq> last (c # b # bs)"
    using Cons.prems(3) last_in_set[of "b # bs"] by auto
  have nc: "nextOf h' (Some c) l = Inr (Some b)"
    using Cons.prems(4) cl Cons.prems(1) pb by simp
  have d: "distinct (b # bs @ vs)" using Cons.prems(3) by simp
  have f: "\<forall>x\<in>set (b # bs @ vs). x \<noteq> last (b # bs) \<longrightarrow> nextOf h' (Some x) l = nextOf h (Some x) l"
    using Cons.prems(4) by simp
  have g: "nextOf h' (Some (last (b # bs))) l = Inr (Some nw)" using Cons.prems(5) by simp
  from Cons.IH[OF nb ch d f g Cons.prems(6)] obtain p' where
    "nextOf h' (Some b) l = Inr p'" "chain h' l p' (bs @ nw # vs) q" by blast
  then show ?case using nc by simp
qed

lemma sorted_keys_distinct:
  "sorted_wrt (<) (map (\<lambda>n. key (h ! n)) ns) \<Longrightarrow> distinct ns"
  by (induction ns) auto

lemma levelOK_valid:
  assumes "levelOK h hp tp l ns"
  shows "hp < length h \<and> l < length (nexts (h ! hp)) \<and> (\<forall>n\<in>set ns. n < length h \<and> l < length (nexts (h ! n)))"
proof -
  from assms obtain p where p: "nextOf h (Some hp) l = Inr p" "chain h l p ns (Some tp)"
    by (auto simp: levelOK_def split: sum.splits)
  show ?thesis using nextOf_valid[OF p(1)] chain_valid[OF p(2)] by blast
qed

lemma levelOK_insert:
  assumes lo: "levelOK h hp tp l ns" and tp: "tp < length h"
      and fresh: "\<forall>n\<in>set ns. key (h ! n) \<noteq> k"
      and same: "\<forall>x<length h. x \<noteq> predAt h hp k ns \<longrightarrow> nextOf h' (Some x) l = nextOf h (Some x) l"
      and lp: "nextOf h' (Some (predAt h hp k ns)) l = Inr (Some (length h))"
      and ls: "nextOf h' (Some (length h)) l = Inr (Some (succAt h tp k ns))"
      and keys: "\<forall>x<length h. key (h' ! x) = key (h ! x)" and knew: "key (h' ! length h) = k"
  shows "levelOK h' hp tp l (below h k ns @ length h # notBelow h k ns)"
proof -
  let ?bs = "below h k ns" and ?vs = "notBelow h k ns"
  from lo obtain p where p: "nextOf h (Some hp) l = Inr p" "chain h l p ns (Some tp)"
    and srt: "sorted_wrt (<) (map (\<lambda>n. key (h ! n)) ns)" and hn: "hp \<notin> set ns" and tn: "tp \<notin> set ns"
    by (auto simp: levelOK_def split: sum.splits)
  have v: "hp < length h" "\<forall>n\<in>set ns. n < length h" using levelOK_valid[OF lo] by auto
  have ns: "?bs @ ?vs = ns" by (rule below_notBelow)
  have d: "distinct (hp # ?bs @ ?vs)" using sorted_keys_distinct[OF srt] hn ns by simp
  have ch: "chain h l p (?bs @ ?vs) (Some tp)" using p(2) ns by simp
  have sm: "\<forall>x\<in>set (hp # ?bs @ ?vs). x \<noteq> last (hp # ?bs) \<longrightarrow> nextOf h' (Some x) l = nextOf h (Some x) l"
    using same v ns by (auto simp: predAt_def)
  have lp': "nextOf h' (Some (last (hp # ?bs))) l = Inr (Some (length h))"
    using lp by (simp add: predAt_def)
  have ls': "nextOf h' (Some (length h)) l = Inr (if ?vs = [] then Some tp else Some (hd ?vs))"
    using ls by (simp add: succAt_def)
  from chain_insert[OF p(1) ch d sm lp' ls'] obtain p' where
    c': "nextOf h' (Some hp) l = Inr p'" "chain h' l p' (?bs @ length h # ?vs) (Some tp)" by blast
  have kb: "\<forall>x\<in>set ?bs. key (h' ! x) < k"
    using below_keys[of _ h k ns] keys v by auto
  have kv: "\<forall>y\<in>set ?vs. k < key (h' ! y)"
  proof
    fix y assume y: "y \<in> set ?vs"
    then have yn: "y \<in> set ns" using notBelow_subset[of h k ns] by auto
    have "y \<notin> set ?bs" using d y by auto
    then have "\<not> key (h ! y) < k" using in_below[OF srt yn] by blast
    moreover have "key (h ! y) \<noteq> k" using fresh yn by simp
    ultimately have "k < key (h ! y)" by auto
    then show "k < key (h' ! y)" using keys v yn by simp
  qed
  have srt': "sorted_wrt (<) (map (\<lambda>n. key (h' ! n)) ns)"
  proof -
    have e: "map (\<lambda>n. key (h' ! n)) ns = map (\<lambda>n. key (h ! n)) ns" using keys v by simp
    show ?thesis unfolding e by (rule srt)
  qed
  have "sorted_wrt (<) (map (\<lambda>n. key (h' ! n)) (?bs @ ?vs))" using srt' ns by simp
  then have s2: "sorted_wrt (<) (map (\<lambda>n. key (h' ! n)) (?bs @ length h # ?vs))"
    using kb kv knew by (auto simp: sorted_wrt_append)
  have "hp \<notin> set (?bs @ length h # ?vs)" "tp \<notin> set (?bs @ length h # ?vs)"
    using hn tn ns v tp by (metis Un_iff less_irrefl set_append set_ConsD)+
  then show ?thesis using c' s2 by (simp add: levelOK_def)
qed

lemma levelOK_frame:
  assumes lo: "levelOK h hp tp l ns"
      and same: "\<forall>x<length h. nextOf h' (Some x) l = nextOf h (Some x) l"
      and keys: "\<forall>x<length h. key (h' ! x) = key (h ! x)"
  shows "levelOK h' hp tp l ns"
proof -
  from lo obtain p where p: "nextOf h (Some hp) l = Inr p" "chain h l p ns (Some tp)"
    and srt: "sorted_wrt (<) (map (\<lambda>n. key (h ! n)) ns)" and hn: "hp \<notin> set ns" and tn: "tp \<notin> set ns"
    by (auto simp: levelOK_def split: sum.splits)
  have v: "hp < length h" "\<forall>n\<in>set ns. n < length h" using levelOK_valid[OF lo] by auto
  have a: "nextOf h' (Some hp) l = Inr p" using same v p(1) by simp
  have "\<forall>x\<in>set ns. nextOf h' (Some x) l = nextOf h (Some x) l" using same v by simp
  then have b: "chain h' l p ns (Some tp)" using chain_cong[of ns h' l h p "Some tp"] p(2) by simp
  have e: "map (\<lambda>n. key (h' ! n)) ns = map (\<lambda>n. key (h ! n)) ns" using keys v by simp
  have c: "sorted_wrt (<) (map (\<lambda>n. key (h' ! n)) ns)" unfolding e by (rule srt)
  show ?thesis using a b c hn tn by (simp add: levelOK_def)
qed

lemma wfList_subset0:
  assumes wf: "wfList h hp tp lv"
  shows "l < maxHeight \<Longrightarrow> set (lv ! l) \<subseteq> set (lv ! 0)"
proof (induction l)
  case 0
  show ?case by simp
next
  case (Suc l)
  then show ?case using wfList_subset[OF wf, of l] by auto
qed

lemma linked_nth:
  "l < maxHeight \<Longrightarrow> linked h k n lv ! l
     = (if l < n then below h k (lv ! l) @ length h # notBelow h k (lv ! l) else lv ! l)"
  by (simp add: linked_def)

lemma set_split: "set (below h k ns) \<union> set (notBelow h k ns) = set ns"
  using below_notBelow[of h k ns] by (metis set_append)

lemma wfList_insert:
  assumes wf: "wfList h hp tp lv" and n: "0 < n" "n \<le> maxHeight"
      and fresh: "\<forall>x\<in>set (lv ! 0). key (h ! x) \<noteq> k"
      and len: "length lbs = maxHeight" "length rbs = maxHeight"
      and b: "\<forall>j<n. lbs ! j = Some (predAt h hp k (lv ! j)) \<and> rbs ! j = Some (succAt h tp k (lv ! j))"
  shows "\<exists>h'. spliceLevels (h @ [newNode k v n]) (Some (length h)) lbs rbs [0..<n] = Inr h'
           \<and> wfList h' hp tp (linked h k n lv) \<and> length h' = Suc (length h)
           \<and> (\<forall>x<length h. key (h' ! x) = key (h ! x) \<and> val (h' ! x) = val (h ! x))
           \<and> key (h' ! length h) = k \<and> val (h' ! length h) = v"
proof -
  let ?h0 = "h @ [newNode k v n]" and ?nd = "Some (length h)"
  have lo: "levelOK h hp tp l (lv ! l)" if "l < maxHeight" for l
    using wfList_level[OF wf that] .
  have tp: "tp < length h" and ne: "hp \<noteq> tp" and vt: "val (h ! tp) = None"
    and ll: "length lv = maxHeight"
    using wf by (simp_all add: wfList_def)
  have pv: "predAt h hp k (lv ! j) < length h \<and> j < length (nexts (h ! predAt h hp k (lv ! j)))"
    if j: "j < n" for j
  proof -
    have jm: "j < maxHeight" using j n by simp
    have "predAt h hp k (lv ! j) \<in> set (hp # lv ! j)"
      using predAt_in[of h hp k "lv ! j"] below_keys[of _ h k "lv ! j"] by auto
    then show ?thesis using levelOK_valid[OF lo[OF jm]] by auto
  qed
  have hl: "\<forall>i\<in>set [0..<n]. i < length lbs \<and> i < length rbs \<and> hasLevel ?h0 (lbs ! i) i \<and> hasLevel ?h0 ?nd i"
  proof
    fix i assume "i \<in> set [0..<n]"
    then have i: "i < n" by simp
    have a: "hasLevel ?h0 (lbs ! i) i"
      using pv[OF i] b i by (simp add: hasLevel_iff nth_append)
    have c: "hasLevel ?h0 ?nd i" using i by (simp add: hasLevel_iff newNode_def)
    show "i < length lbs \<and> i < length rbs \<and> hasLevel ?h0 (lbs ! i) i \<and> hasLevel ?h0 ?nd i"
      using a c i n len by simp
  qed
  from spliceLevels_ok[OF hl] obtain h' where
    sp: "spliceLevels ?h0 ?nd lbs rbs [0..<n] = Inr h'" and ss: "sameShape ?h0 h'" by blast
  have lh: "length h' = Suc (length h)" using ss by (simp add: sameShape_def)
  have old: "\<forall>x<length h. key (h' ! x) = key (h ! x) \<and> val (h' ! x) = val (h ! x)"
    using ss by (auto simp: sameShape_def nth_append)
  have new: "key (h' ! length h) = k \<and> val (h' ! length h) = v"
    using ss by (auto simp: sameShape_def nth_append newNode_def)
  have keys: "\<forall>x<length h. key (h' ! x) = key (h ! x)" using old by simp
  have lev: "levelOK h' hp tp l (linked h k n lv ! l)" if l: "l < maxHeight" for l
  proof (cases "l < n")
    case True
    have fr: "\<forall>x\<in>set (lv ! l). key (h ! x) \<noteq> k"
      using fresh wfList_subset0[OF wf l] by auto
    have lb: "lbs ! l = Some (predAt h hp k (lv ! l))" and rb: "rbs ! l = Some (succAt h tp k (lv ! l))"
      using b True by simp_all
    have same: "\<forall>x<length h. x \<noteq> predAt h hp k (lv ! l) \<longrightarrow> nextOf h' (Some x) l = nextOf h (Some x) l"
    proof (intro allI impI)
      fix x assume x: "x < length h" "x \<noteq> predAt h hp k (lv ! l)"
      have "nextOf h' (Some x) l = nextOf ?h0 (Some x) l"
        by (rule spliceLevels_other[OF sp]) (use x lb in auto)
      then show "nextOf h' (Some x) l = nextOf h (Some x) l"
        using nextOf_append[OF x(1)] by simp
    qed
    have lk: "nextOf h' (lbs ! l) l = Inr ?nd \<and> nextOf h' ?nd l = Inr (rbs ! l)"
      by (rule spliceLevels_link[OF sp]) (use True lb pv[OF True] in auto)
    have lp: "nextOf h' (Some (predAt h hp k (lv ! l))) l = Inr (Some (length h))"
      using lk lb by simp
    have ls: "nextOf h' (Some (length h)) l = Inr (Some (succAt h tp k (lv ! l)))"
      using lk rb by simp
    have "levelOK h' hp tp l (below h k (lv ! l) @ length h # notBelow h k (lv ! l))"
      using levelOK_insert[OF lo[OF l] tp fr same lp ls keys] new by simp
    then show ?thesis using True l by (simp add: linked_nth)
  next
    case False
    have same: "\<forall>x<length h. nextOf h' (Some x) l = nextOf h (Some x) l"
    proof (intro allI impI)
      fix x assume x: "x < length h"
      have "nextOf h' (Some x) l = nextOf ?h0 (Some x) l"
        by (rule spliceLevels_frame[OF sp]) (use False in simp)
      then show "nextOf h' (Some x) l = nextOf h (Some x) l"
        using nextOf_append[OF x] by simp
    qed
    have "levelOK h' hp tp l (lv ! l)" using levelOK_frame[OF lo[OF l] same keys] .
    then show ?thesis using False l by (simp add: linked_nth)
  qed
  have sub: "set (linked h k n lv ! Suc l) \<subseteq> set (linked h k n lv ! l)" if l: "Suc l < maxHeight" for l
  proof -
    have l': "l < maxHeight" using l by simp
    have s: "set (lv ! Suc l) \<subseteq> set (lv ! l)" using wfList_subset[OF wf l] .
    show ?thesis
      using s set_split[of h k "lv ! l"] set_split[of h k "lv ! Suc l"]
      by (auto simp: linked_nth[OF l] linked_nth[OF l'])
  qed
  have vt': "val (h' ! tp) = None" using old tp vt by simp
  have tp': "tp < length h'" using tp lh by simp
  have "wfList h' hp tp (linked h k n lv)"
    unfolding wfList_def list_all_iff
    using ne tp' vt' lev sub by (auto simp: linked_def)
  then show ?thesis using sp lh old new by blast
qed

lemma Get_wf:
  assumes wf: "wfList (st_nodes g) hp tp lv" and hd: "st_head g = Some hp" and tl: "st_tail g = Some tp"
      and top: "\<forall>x\<in>set (lv ! (maxHeight - 1)). k \<le> key (st_nodes g ! x)"
      and nz: "st_size g \<noteq> 0"
  shows "\<exists>lbs rbs. searchBounds_mt g k = ok (lbs, rbs)
           \<and> length lbs = maxHeight \<and> length rbs = maxHeight
           \<and> (\<forall>j<maxHeight. lbs ! j = Some (predAt (st_nodes g) hp k (lv ! j))
                             \<and> rbs ! j = Some (succAt (st_nodes g) tp k (lv ! j)))
           \<and> Get g k = ok (if key (st_nodes g ! succAt (st_nodes g) tp k (lv ! 0)) = k
                            then Some (succAt (st_nodes g) tp k (lv ! 0)) else None)"
proof -
  let ?h = "st_nodes g"
  from searchBoundsOn_wf[OF wf top] obtain lbs rbs where
    sb: "searchBoundsOn ?h (Some hp) (Some tp) False k = ok (lbs, rbs)"
    and len: "length lbs = maxHeight" "length rbs = maxHeight"
    and b: "\<forall>j<maxHeight. lbs ! j = Some (predAt ?h hp k (lv ! j)) \<and> rbs ! j = Some (succAt ?h tp k (lv ! j))"
    by blast
  have sb': "searchBounds_mt g k = ok (lbs, rbs)"
    using sb nz by (simp add: searchBounds_mt_def hd tl)
  have z: "0 < maxHeight" by (simp add: maxHeight_def)
  have l0: "levelOK ?h hp tp 0 (lv ! 0)" using wfList_level[OF wf z] .
  have tp: "tp < length ?h" and ne: "hp \<noteq> tp" using wf by (simp_all add: wfList_def)
  have sw: "searchWithBounds_mt g k lbs rbs
              = Inr (if key (?h ! succAt ?h tp k (lv ! 0)) = k then Some (succAt ?h tp k (lv ! 0)) else None)"
    unfolding searchWithBounds_mt_def hd
    by (rule searchWithBoundsOn_wf[OF l0 tp ne]) (use b z in auto)
  have "Get g k = ok (if key (?h ! succAt ?h tp k (lv ! 0)) = k then Some (succAt ?h tp k (lv ! 0)) else None)"
    by (simp add: Get_def sb' sw)
  then show ?thesis using sb' len b by blast
qed

lemma succAt_cases: "succAt h tp k ns = tp \<or> succAt h tp k ns \<in> set ns"
proof (cases "notBelow h k ns = []")
  case True
  then show ?thesis by (simp add: succAt_def)
next
  case False
  then have "hd (notBelow h k ns) \<in> set ns" using notBelow_subset[of h k ns] hd_in_set by blast
  then show ?thesis using False by (simp add: succAt_def)
qed

lemma Update_mt_links_new_key:
  assumes wf: "wfList (st_nodes g) hp tp lv" and hd: "st_head g = Some hp" and tl: "st_tail g = Some tp"
      and top: "\<forall>x\<in>set (lv ! (maxHeight - 1)). k \<le> key (st_nodes g ! x)"
      and fresh: "\<forall>x\<in>set (lv ! 0). key (st_nodes g ! x) \<noteq> k"
      and kt: "key (st_nodes g ! tp) \<noteq> k"
      and zero: "st_size g = 0 \<longrightarrow> lv ! 0 = []"
  shows "\<exists>h'. Update_mt g k v rnd
                 = ok (g\<lparr>st_nodes := h', st_len := st_len g + 1,
                        st_size := st_size g + of_nat (length k + len_bytes v)\<rparr>, True)
           \<and> wfList h' hp tp (linked (st_nodes g) k (liftLayers rnd) lv)
           \<and> length h' = Suc (length (st_nodes g))
           \<and> (\<forall>x<length (st_nodes g). key (h' ! x) = key (st_nodes g ! x) \<and> val (h' ! x) = val (st_nodes g ! x))
           \<and> key (h' ! length (st_nodes g)) = k \<and> val (h' ! length (st_nodes g)) = v"
proof -
  let ?h = "st_nodes g"
  have z: "0 < maxHeight" by (simp add: maxHeight_def)
  have l0: "levelOK ?h hp tp 0 (lv ! 0)" using wfList_level[OF wf z] .
  have tp: "tp < length ?h" and ne: "hp \<noteq> tp" using wf by (simp_all add: wfList_def)
  have sk: "key (?h ! succAt ?h tp k (lv ! 0)) \<noteq> k"
    using succAt_cases[of ?h tp k "lv ! 0"] fresh kt by auto
  have "\<exists>lbs rbs. searchBounds_mt g k = ok (lbs, rbs)
           \<and> length lbs = maxHeight \<and> length rbs = maxHeight
           \<and> (\<forall>j<maxHeight. lbs ! j = Some (predAt ?h hp k (lv ! j)) \<and> rbs ! j = Some (succAt ?h tp k (lv ! j)))"
  proof (cases "st_size g = 0")
    case True
    have e: "lv ! j = []" if "j < maxHeight" for j
      using wfList_subset0[OF wf that] zero True by simp
    have "searchBounds_mt g k = ok (initBound (Some hp), initBound (Some tp))"
      using True by (simp add: searchBounds_mt_def searchBoundsOn_def hd tl)
    then show ?thesis
      using e by (simp add: initBound_def predAt_def succAt_def below_def notBelow_def)
  next
    case False
    then show ?thesis using Get_wf[OF wf hd tl top] by blast
  qed
  then obtain lbs rbs where sb: "searchBounds_mt g k = ok (lbs, rbs)"
    and len: "length lbs = maxHeight" "length rbs = maxHeight"
    and b: "\<forall>j<maxHeight. lbs ! j = Some (predAt ?h hp k (lv ! j)) \<and> rbs ! j = Some (succAt ?h tp k (lv ! j))"
    by blast
  have sw: "searchWithBounds_mt g k lbs rbs
              = Inr (if key (?h ! succAt ?h tp k (lv ! 0)) = k then Some (succAt ?h tp k (lv ! 0)) else None)"
    unfolding searchWithBounds_mt_def hd
    by (rule searchWithBoundsOn_wf[OF l0 tp ne]) (use b z in auto)
  have sw': "searchWithBounds_mt g k lbs rbs = Inr None" using sw sk by simp
  have n: "0 < liftLayers rnd" "liftLayers rnd \<le> maxHeight" using liftLayers_range[of rnd] by auto
  have b': "\<forall>j<liftLayers rnd. lbs ! j = Some (predAt ?h hp k (lv ! j)) \<and> rbs ! j = Some (succAt ?h tp k (lv ! j))"
    using b n by simp
  from wfList_insert[OF wf n fresh len b', of v] obtain h' where
    sp: "spliceLevels (?h @ [newNode k v (liftLayers rnd)]) (Some (length ?h)) lbs rbs [0..<liftLayers rnd] = Inr h'"
    and rest: "wfList h' hp tp (linked ?h k (liftLayers rnd) lv)" "length h' = Suc (length ?h)"
      "\<forall>x<length ?h. key (h' ! x) = key (?h ! x) \<and> val (h' ! x) = val (?h ! x)"
      "key (h' ! length ?h) = k \<and> val (h' ! length ?h) = v"
    by blast
  have "Update_mt g k v rnd
          = ok (g\<lparr>st_nodes := h', st_len := st_len g + 1,
                 st_size := st_size g + of_nat (length k + len_bytes v)\<rparr>, True)"
    by (simp add: Update_mt_def sb sw' Let_def sp)
  then show ?thesis using rest by blast
qed

section \<open>The skip list of package skiplist\<close>

text \<open>
  C1. The claim: after any sequence of Insert/Update calls, with any outcome of the height
  sampling, Search of a written key returns the value written last. The code breaks it in
  two ways. The empty key is also the key of the tail sentinel, which \<open>searchWithBounds\<close>
  does not exclude (it compares the right bound with \<open>st.head\<close>): \<open>Insert("", "x")\<close> on the
  empty list writes into the sentinel, and after \<open>Insert("b", "y")\<close> the search for \<open>""\<close>
  ends at the node of \<open>"b"\<close> and finds nothing. And \<open>searchBounds\<close> seeds the top level with
  \<open>head.nexts[maxHeight-1]\<close> as right bound, which \<open>narrowDownBound\<close> returns at once: when
  the node of \<open>"a"\<close> has the full height 16, every later search is confined to the keys
  before it, \<open>Insert("b", "y")\<close> links \<open>"b"\<close> in front of \<open>"a"\<close>, and \<open>Search("a")\<close> finds
  nothing.
\<close>

theorem Search_loses_written_key:
  "SearchAfter [InsertCall [] (Some ''x'') allTails, InsertCall ''b'' (Some ''y'') allTails] []
     = ok None
   \<and> SearchAfter [InsertCall ''a'' (Some ''x'') allHeads, InsertCall ''b'' (Some ''y'') allTails] ''a''
     = ok None"
  by code_simp

text \<open>
  C2. The claim: Update of a tombstoned key with a value revives it (a later Get returns the
  value) and adds 1 to the live count, in both skip lists. In package memtable the branch
  of \<open>Update\<close> for a node whose value is nil adds to \<open>len\<close> and \<open>size\<close> and returns without
  storing the value: after \<open>Update("a", "x")\<close>, \<open>Update("a", nil)\<close>, \<open>Update("a", "y")\<close> the node
  of \<open>"a"\<close> is found and its value is still nil, while \<open>len\<close> went from 1 to 2.
\<close>

theorem Update_mt_does_not_revive:
  "GetValAfter [(''a'', Some ''x'', allTails), (''a'', None, allTails), (''a'', Some ''y'', allTails)] ''a''
     = ok (Some None)
   \<and> GetLenAfter [(''a'', Some ''x'', allTails), (''a'', None, allTails)] = ok 1
   \<and> GetLenAfter [(''a'', Some ''x'', allTails), (''a'', None, allTails), (''a'', Some ''y'', allTails)]
     = ok 2"
  by code_simp

text \<open>
  C3. The claim: Delete takes 1 from the live count for a live key and 0 for an absent or
  already tombstoned key. \<open>Delete\<close> does not look at the value of the node it finds: with
  \<open>"a"\<close> and \<open>"b"\<close> inserted, the first \<open>Delete("a")\<close> brings the size from 2 to 1 and the
  second one from 1 to 0, although \<open>"a"\<close> was already tombstoned and \<open>"b"\<close> is live. With the
  size at 0, \<open>searchBounds\<close> returns at once and \<open>Search("b")\<close> finds nothing.
\<close>

theorem Delete_tombstoned_key_decrements:
  "GetSizeAfter [InsertCall ''a'' (Some ''1'') allTails, InsertCall ''b'' (Some ''2'') allTails,
                 DeleteCall ''a''] = ok (Some 1)
   \<and> GetSizeAfter [InsertCall ''a'' (Some ''1'') allTails, InsertCall ''b'' (Some ''2'') allTails,
                   DeleteCall ''a'', DeleteCall ''a''] = ok (Some 0)
   \<and> SearchAfter [InsertCall ''a'' (Some ''1'') allTails, InsertCall ''b'' (Some ''2'') allTails,
                  DeleteCall ''a'', DeleteCall ''a''] ''b'' = ok None"
  by code_simp

text \<open>
  C4, as amended. On a list that is in order (\<open>wellFormed\<close>: every level a strictly
  ascending chain from the head to the tail, every level's nodes among those of the level
  below, the live count zero only when nothing live is linked) and whose nodes of full
  height, if any, have keys not below the searched key, \<open>Search\<close> returns the current value
  of the key: the stored value of a live key, nil for a tombstoned key and nil for a key
  that was never written. The last two results are the same nil: a caller of \<open>Search\<close>
  cannot tell a tombstone from a key that is not there.
\<close>

theorem Search_returns_current_value:
  assumes wf: "wellFormed st lv"
      and top: "\<forall>n\<in>set (lv ! (maxHeight - 1)). k \<le> key (sl_nodes st ! n)"
  shows "Search (Some st) k = ok (current (sl_nodes st) (lv ! 0) k)
       \<and> (k \<notin> (\<lambda>n. key (sl_nodes st ! n)) ` set (lv ! 0) \<longrightarrow> Search (Some st) k = ok None)
       \<and> (\<forall>n\<in>set (lv ! 0). key (sl_nodes st ! n) = k \<and> val (sl_nodes st ! n) = None
             \<longrightarrow> Search (Some st) k = ok None)"
proof -
  let ?h = "sl_nodes st"
  from wf obtain hp tp where ht: "sl_head st = Some hp" "sl_tail st = Some tp"
    and wl: "wfList ?h hp tp lv"
    and zero: "sl_size st = 0 \<longrightarrow> (\<forall>n\<in>set (lv ! 0). val (?h ! n) = None)"
    by (auto simp: wellFormed_def list_all_iff split: option.splits)
  have ne: "hp \<noteq> tp" and tp: "tp < length ?h" and vt: "val (?h ! tp) = None"
    using wl by (simp_all add: wfList_def)
  have z: "0 < maxHeight" by (simp add: maxHeight_def)
  have l0: "levelOK ?h hp tp 0 (lv ! 0)" using wfList_level[OF wl z] .
  have srt: "sorted_wrt (<) (map (\<lambda>n. key (?h ! n)) (lv ! 0))" using l0 by (simp add: levelOK_def)
  have main: "Search (Some st) k = ok (current ?h (lv ! 0) k)"
  proof (cases "sl_size st = 0")
    case True
    have sb: "searchBounds st k = ok (initBound (Some hp), initBound (Some tp))"
      using True by (simp add: searchBounds_def searchBoundsOn_def ht)
    have sw: "searchWithBounds st k (initBound (Some hp)) (initBound (Some tp))
                = Inr (if key (?h ! tp) = k then Some tp else None)"
      using ne tp by (simp add: searchWithBounds_def searchWithBoundsOn_def ht initBound_def
            maxHeight_def keyOf_def deref_def)
    have s: "Search (Some st) k = ok None"
      using vt tp by (simp add: Search_def search_def sb sw valOf_def deref_def)
    have "current ?h (lv ! 0) k = None"
    proof (cases "find (\<lambda>n. key (?h ! n) = k) (lv ! 0)")
      case None
      then show ?thesis by (simp add: current_def)
    next
      case (Some n)
      then have "n \<in> set (lv ! 0)" by (auto simp: find_Some_iff)
      then show ?thesis using zero True Some by (simp add: current_def)
    qed
    then show ?thesis using s by simp
  next
    case False
    from searchBoundsOn_wf[OF wl top] obtain lbs rbs where
      sb: "searchBoundsOn ?h (Some hp) (Some tp) False k = ok (lbs, rbs)"
      and b: "\<forall>j<maxHeight. lbs ! j = Some (predAt ?h hp k (lv ! j)) \<and> rbs ! j = Some (succAt ?h tp k (lv ! j))"
      by blast
    have sb': "searchBounds st k = ok (lbs, rbs)"
      using sb False by (simp add: searchBounds_def ht)
    let ?s = "succAt ?h tp k (lv ! 0)"
    have sw: "searchWithBounds st k lbs rbs = Inr (if key (?h ! ?s) = k then Some ?s else None)"
      unfolding searchWithBounds_def ht
      by (rule searchWithBoundsOn_wf[OF l0 tp ne]) (use b z in auto)
    have sv: "?s < length ?h" using succAt_level[OF l0 tp ne, of k] by simp
    have s: "Search (Some st) k = ok (if key (?h ! ?s) = k then val (?h ! ?s) else None)"
      using sv by (simp add: Search_def search_def sb' sw valOf_def deref_def)
    have c: "current ?h (lv ! 0) k = (if key (?h ! ?s) = k then val (?h ! ?s) else None)"
    proof (cases "notBelow ?h k (lv ! 0) = []")
      case True
      then have "?s = tp" by (simp add: succAt_def)
      then show ?thesis using True vt find_sorted[OF srt, of k] by (simp add: current_def)
    next
      case nb: False
      then have "?s = hd (notBelow ?h k (lv ! 0))" by (simp add: succAt_def)
      then show ?thesis using nb find_sorted[OF srt, of k] by (simp add: current_def)
    qed
    show ?thesis using s c by simp
  qed
  show ?thesis
    using main current_absent[of k ?h "lv ! 0"] current_present[OF srt] by auto
qed

text \<open>The theorem at work: \<open>a\<close> written at height 1, \<open>b\<close> at height 3, \<open>a\<close> deleted. The
  tombstoned \<open>a\<close> and the absent \<open>zz\<close> both read as nil, the live \<open>b\<close> as its value.\<close>

theorem Search_returns_current_value_witness:
  "SearchAfter [InsertCall ''a'' (Some ''1'') allTails, InsertCall ''b'' (Some ''2'') (headsThenTails 2),
                DeleteCall ''a''] ''a'' = ok None
   \<and> SearchAfter [InsertCall ''a'' (Some ''1'') allTails, InsertCall ''b'' (Some ''2'') (headsThenTails 2),
                  DeleteCall ''a''] ''zz'' = ok None
   \<and> SearchAfter [InsertCall ''a'' (Some ''1'') allTails, InsertCall ''b'' (Some ''2'') (headsThenTails 2),
                  DeleteCall ''a''] ''b'' = ok (Some ''2'')"
proof -
  define st where "st = the (projr (the (runCalls (Some (NewSkipList :: string skipList))
      [InsertCall ''a'' (Some ''1'') allTails, InsertCall ''b'' (Some ''2'') (headsThenTails 2),
       DeleteCall ''a''])))"
  define lv where "lv = [[2, 3], [3], [3 :: nat]] @ replicate 13 []"
  have run: "runCalls (Some (NewSkipList :: string skipList))
      [InsertCall ''a'' (Some ''1'') allTails, InsertCall ''b'' (Some ''2'') (headsThenTails 2),
       DeleteCall ''a''] = ok (Some st)"
    unfolding st_def by code_simp
  have wf: "wellFormed st lv"
    unfolding st_def lv_def by code_simp
  have top: "\<forall>n\<in>set (lv ! (maxHeight - 1)). k \<le> key (sl_nodes st ! n)" for k
    unfolding lv_def by (simp add: maxHeight_def)
  have c: "current (sl_nodes st) (lv ! 0) ''a'' = None"
    "current (sl_nodes st) (lv ! 0) ''zz'' = None"
    "current (sl_nodes st) (lv ! 0) ''b'' = Some ''2''"
    unfolding st_def lv_def by code_simp+
  show ?thesis
    using Search_returns_current_value[OF wf top, of "''a''"]
          Search_returns_current_value[OF wf top, of "''zz''"]
          Search_returns_current_value[OF wf top, of "''b''"]
    unfolding SearchAfter_def run by (simp add: c)
qed

text \<open>
  C4, as the claim states it: the result for a tombstoned key could be told from the
  result for a key never written. \<open>Search\<close> returns the node's value, which is nil for
  a tombstone, and nil when no node is found: after \<open>Delete("a")\<close> the deleted \<open>a\<close> and the
  never written \<open>zz\<close> give the same result.
\<close>

theorem Search_tombstone_looks_like_not_found:
  "SearchAfter [InsertCall ''a'' (Some ''1'') allTails, InsertCall ''b'' (Some ''2'') allTails,
                DeleteCall ''a''] ''a'' = ok None
   \<and> SearchAfter [InsertCall ''a'' (Some ''1'') allTails, InsertCall ''b'' (Some ''2'') allTails,
                  DeleteCall ''a''] ''zz'' = ok None"
  by code_simp

section \<open>The memtable\<close>

text \<open>
  C5. \<open>Get\<close> of the memtable scans the generations from the newest to the oldest and
  answers from the first one that holds the key at all, that is, the first one whose
  \<open>Get\<close> returns a node, be its value live or the nil of a tombstone: when the newer
  generations \<open>newer\<close> all miss the key and generation \<open>st\<close> returns the node \<open>n\<close>, the
  answer is the value of \<open>n\<close> with \<open>true\<close>, whatever the older generations \<open>older\<close> are
  (they are not consulted: the answer does not depend on them, not even on whether
  a search in them would return).
\<close>

theorem Get_memtable_first_hit:
  assumes "\<forall>st \<in> set newer. Get st k = ok None"
      and "Get st k = ok (Some n)"
  shows "Get_memtable \<lparr>skiplists = newer @ st # older\<rparr> k = ok (val (st_nodes st ! n), True)"
proof -
  have n: "n < length (st_nodes st)" using assms(2) by (rule Get_found_valid)
  have "scanGenerations (newer @ st # older) k = ok (val (st_nodes st ! n), True)"
    using assms(1)
  proof (induction newer)
    case Nil
    show ?case using assms(2) n by (simp add: valOf_def deref_def)
  next
    case (Cons g gs)
    then show ?case by simp
  qed
  then show ?thesis by (simp add: Get_memtable_def)
qed

text \<open>
  The witness: the newest generation is empty, the next one holds \<open>"a"\<close> tombstoned, the
  oldest one holds \<open>"a"\<close> with the value \<open>"x"\<close>; \<open>Get("a")\<close> answers nil with \<open>true\<close>.
\<close>

theorem Get_memtable_first_hit_witness:
  "bindR (updates_mt NewSkipList_mt [(''a'', Some ''y'', allTails), (''a'', None, allTails)]) (\<lambda>tomb.
   bindR (updates_mt NewSkipList_mt [(''a'', Some ''x'', allTails)]) (\<lambda>live.
     Get_memtable \<lparr>skiplists = [NewSkipList_mt, tomb, live]\<rparr> ''a'')) = ok (None, True)"
proof -
  define tomb where "tomb = projr (the (updates_mt NewSkipList_mt
      [(''a'', Some ''y'', allTails), (''a'', None, allTails)]))"
  define live where "live = projr (the (updates_mt NewSkipList_mt [(''a'', Some ''x'', allTails)]))"
  have r1: "updates_mt NewSkipList_mt [(''a'', Some ''y'', allTails), (''a'', None, allTails)] = ok tomb"
    unfolding tomb_def by code_simp
  have r2: "updates_mt NewSkipList_mt [(''a'', Some ''x'', allTails)] = ok live"
    unfolding live_def by code_simp
  have h1: "\<forall>st \<in> set [NewSkipList_mt]. Get st ''a'' = ok None"
    by code_simp
  have h2: "Get tomb ''a'' = ok (Some 2)"
    unfolding tomb_def by code_simp
  have v: "val (st_nodes tomb ! 2) = None"
    unfolding tomb_def by code_simp
  have "Get_memtable \<lparr>skiplists = [NewSkipList_mt] @ tomb # [live]\<rparr> ''a'' = ok (None, True)"
    using Get_memtable_first_hit[OF h1 h2, of "[live]"] by (simp only: v)
  then show ?thesis
    unfolding r1 r2 by simp
qed

text \<open>
  C9. When the memtable has at least two generations, draining the iterator of the oldest
  one yields every node on its level-0 chain, from the node after the head up to the
  tail, in the order of the chain; each node gives its key and its value as a string, and
  a node whose value is the nil of a tombstone is emitted like the others, with the empty
  string for its value.
\<close>

theorem oldest_iterator_yields_level0_chain:
  assumes "2 \<le> length (skiplists mt)"
      and "nextOf (st_nodes (last (skiplists mt))) (st_head (last (skiplists mt))) 0 = Inr p"
      and "chain (st_nodes (last (skiplists mt))) 0 p ns (st_tail (last (skiplists mt)))"
      and "st_tail (last (skiplists mt)) \<notin> Some ` set ns"
  shows "drainOldest mt = ok (Some (map (emitted (st_nodes (last (skiplists mt)))) ns))"
proof -
  let ?g = "last (skiplists mt)"
  have ne: "skiplists mt \<noteq> []" using assms(1) by auto
  have it: "getLastIterator mt = Inr (Some \<lparr>it_st = ?g, cursor = p\<rparr>)"
    using assms(1,2) by (simp add: getLastIterator_def Let_def last_conv_nth[OF ne])
  have "drainFrom \<lparr>it_st = ?g, cursor = p\<rparr> [] = ok ([] @ map (emitted (st_nodes ?g)) ns)"
    using drainFrom_chain[of "\<lparr>it_st = ?g, cursor = p\<rparr>" ns "[]"] assms(3,4) by simp
  then show ?thesis by (simp add: drainOldest_def it drain_def)
qed

text \<open>
  The witness, with threshold 10: \<open>"b"\<close> is written and deleted, \<open>"a"\<close> is written, and the
  write of \<open>"c"\<close> opens a second generation. The oldest generation is drained as \<open>"a"\<close>
  with its value and \<open>"b"\<close> with the empty string of its tombstone.
\<close>

theorem oldest_iterator_witness:
  "DrainOldestAfter 10 [UpdateM ''b'' (Some ''12345678'') allTails, DeleteM ''b'' allTails,
                        UpdateM ''a'' (Some ''0123456789'') allTails, UpdateM ''c'' (Some ''z'') allTails]
     = ok (Some [(''a'', ''0123456789''), (''b'', [])])"
proof -
  define mt where "mt = projr (the (runMCalls 10 NewMemtable
      [UpdateM ''b'' (Some ''12345678'') allTails, DeleteM ''b'' allTails,
       UpdateM ''a'' (Some ''0123456789'') allTails, UpdateM ''c'' (Some ''z'') allTails]))"
  have run: "runMCalls 10 NewMemtable
      [UpdateM ''b'' (Some ''12345678'') allTails, DeleteM ''b'' allTails,
       UpdateM ''a'' (Some ''0123456789'') allTails, UpdateM ''c'' (Some ''z'') allTails] = ok mt"
    unfolding mt_def by code_simp
  have h1: "2 \<le> length (skiplists mt)" unfolding mt_def by code_simp
  have h2: "nextOf (st_nodes (last (skiplists mt))) (st_head (last (skiplists mt))) 0 = Inr (Some 3)"
    unfolding mt_def by code_simp
  have h3: "chain (st_nodes (last (skiplists mt))) 0 (Some 3) [3, 2] (st_tail (last (skiplists mt)))"
    unfolding mt_def by code_simp
  have h4: "st_tail (last (skiplists mt)) \<notin> Some ` set [3, 2]"
    unfolding mt_def by code_simp
  have e: "map (emitted (st_nodes (last (skiplists mt)))) [3, 2] = [(''a'', ''0123456789''), (''b'', [])]"
    unfolding mt_def by code_simp
  have "drainOldest mt = ok (Some [(''a'', ''0123456789''), (''b'', [])])"
    using oldest_iterator_yields_level0_chain[OF h1 h2 h3 h4] by (simp only: e)
  then show ?thesis
    unfolding DrainOldestAfter_def run by simp
qed

text \<open>
  C10. \<open>Delete(key)\<close> of the memtable writes into the newest generation after the rotation
  test, the head of \<open>skiplists (rotate thr mt)\<close>. When that generation does not hold the
  key (its \<open>Get\<close> returns no node), \<open>Delete\<close> returns \<open>true\<close> and the generation gets one
  new node with this key and the nil value, linked at level 0; its \<open>GetLen\<close> grows by 1
  and its \<open>GetSize\<close> by the length of the key, for every threshold and every sampled
  height.
\<close>

theorem Delete_absent_key_adds_tombstone:
  assumes absent: "Get (hd (skiplists (rotate thr mt))) k = ok None"
      and head: "fullHead (hd (skiplists (rotate thr mt)))"
  shows "\<exists>g'. Delete_thr thr mt k rnd
                = ok ((rotate thr mt)\<lparr>skiplists := g' # tl (skiplists (rotate thr mt))\<rparr>, True)
           \<and> GetLen g' = GetLen (hd (skiplists (rotate thr mt))) + 1
           \<and> GetSize_mt g' = GetSize_mt (hd (skiplists (rotate thr mt))) + of_nat (length k)
           \<and> length (st_nodes g') = Suc (length (st_nodes (hd (skiplists (rotate thr mt)))))
           \<and> key (st_nodes g' ! length (st_nodes (hd (skiplists (rotate thr mt))))) = k
           \<and> val (st_nodes g' ! length (st_nodes (hd (skiplists (rotate thr mt))))) = None
           \<and> (\<exists>p. nextOf (st_nodes g') p 0 = Inr (Some (length (st_nodes (hd (skiplists (rotate thr mt)))))))"
proof -
  let ?mt = "rotate thr mt"
  let ?g = "hd (skiplists ?mt)"
  let ?h = "st_nodes ?g"
  let ?n = "liftLayers rnd"
  let ?nd = "Some (length ?h)"
  let ?hnew = "?h @ [newNode k None ?n]"
  from absent obtain lbs rbs where
    sb: "searchBounds_mt ?g k = ok (lbs, rbs)"
    and sw: "searchWithBounds_mt ?g k lbs rbs = Inr None"
    by (auto simp: Get_def bindR_eq_ok)
  from sb have lk: "length lbs = maxHeight \<and> length rbs = maxHeight
         \<and> (if st_size ?g = 0 then lbs = replicate maxHeight (st_head ?g) \<and> rbs = replicate maxHeight (st_tail ?g)
            else (\<forall>j<maxHeight. nextOf ?h (lbs ! j) j = Inr (rbs ! j)))"
    unfolding searchBounds_mt_def by (rule searchBoundsOn_linked)
  have n: "1 \<le> ?n" "?n \<le> maxHeight" using liftLayers_range[of rnd] by auto
  have lv: "\<forall>j<maxHeight. hasLevel ?h (lbs ! j) j"
    using lk fullHead_hasLevel[OF head] by (auto dest: nextOf_hasLevel split: if_splits)
  have old: "\<forall>j<maxHeight. \<exists>a. lbs ! j = Some a \<and> a < length ?h"
    using lv by (auto simp: hasLevel_iff)
  have pre: "\<forall>i\<in>set [0..<?n]. i < length lbs \<and> i < length rbs \<and> hasLevel ?hnew (lbs ! i) i \<and> hasLevel ?hnew ?nd i"
    using n lk lv by (auto simp: hasLevel_append) (simp add: hasLevel_iff newNode_def)
  from spliceLevels_ok[OF pre] obtain h' where
    sp: "spliceLevels ?hnew ?nd lbs rbs [0..<?n] = Inr h'" and sh: "sameShape ?hnew h'"
    by blast
  let ?g' = "?g\<lparr>st_nodes := h', st_len := st_len ?g + 1,
                 st_size := st_size ?g + of_nat (length k + len_bytes None)\<rparr>"
  have up: "Update_mt ?g k None rnd = ok (?g', True)"
    using sb sw sp by (simp add: Update_mt_def Let_def)
  have d: "Delete_thr thr mt k rnd = ok (?mt\<lparr>skiplists := ?g' # tl (skiplists ?mt)\<rparr>, True)"
  proof (cases "skiplists ?mt")
    case Nil
    then show ?thesis using rotate_nonempty[of thr mt] by simp
  next
    case (Cons a as)
    then show ?thesis using up by (simp add: Delete_thr_def writeNewest_def)
  qed
  have "\<exists>a. lbs ! 0 = Some a \<and> a < length ?h" using old by (simp add: maxHeight_def)
  then have "lbs ! 0 \<noteq> ?nd" by auto
  then have link: "nextOf h' (lbs ! 0) 0 = Inr ?nd"
    using spliceLevels_link[OF sp, of 0] n by auto
  have shape: "length h' = Suc (length ?h)" "key (h' ! length ?h) = k" "val (h' ! length ?h) = None"
    using sh by (auto simp: sameShape_def newNode_def nth_append)
  show ?thesis
    using d shape link by (intro exI[of _ ?g']) (auto simp: GetLen_def GetSize_mt_def len_bytes_def)
qed

text \<open>
  The witness, with threshold 10: the one generation holds \<open>"b"\<close>; \<open>Delete("a")\<close> returns
  \<open>true\<close>, \<open>GetLen\<close> goes from 1 to 2 and \<open>GetSize\<close> from 2 to 3.
\<close>

theorem Delete_absent_key_witness:
  "bindR (runMCalls 10 NewMemtable [UpdateM ''b'' (Some ''1'') allTails]) (\<lambda>mt.
   bindR (Delete_thr 10 mt ''a'' allTails) (\<lambda>(mt', b).
     ok (b, map GetLen (skiplists mt), map GetLen (skiplists mt'),
            map GetSize_mt (skiplists mt), map GetSize_mt (skiplists mt'))))
   = ok (True, [1], [2], [2], [3])"
proof -
  define mt where "mt = projr (the (runMCalls 10 NewMemtable [UpdateM ''b'' (Some ''1'') allTails]))"
  have run: "runMCalls 10 NewMemtable [UpdateM ''b'' (Some ''1'') allTails] = ok mt"
    unfolding mt_def by code_simp
  have a: "Get (hd (skiplists (rotate 10 mt))) ''a'' = ok None"
    unfolding mt_def by code_simp
  have f: "fullHead (hd (skiplists (rotate 10 mt)))"
    unfolding mt_def by code_simp
  have t: "tl (skiplists (rotate 10 mt)) = []" "map GetLen (skiplists mt) = [1]"
    "map GetSize_mt (skiplists mt) = [2]"
    "GetLen (hd (skiplists (rotate 10 mt))) = 1" "GetSize_mt (hd (skiplists (rotate 10 mt))) = 2"
    unfolding mt_def by code_simp+
  from Delete_absent_key_adds_tombstone[OF a f, of allTails] obtain g' where
    d: "Delete_thr 10 mt ''a'' allTails
          = ok ((rotate 10 mt)\<lparr>skiplists := g' # tl (skiplists (rotate 10 mt))\<rparr>, True)"
    and l: "GetLen g' = GetLen (hd (skiplists (rotate 10 mt))) + 1"
    and s: "GetSize_mt g' = GetSize_mt (hd (skiplists (rotate 10 mt))) + of_nat (length ''a'')"
    by blast
  show ?thesis
    unfolding run by (simp add: d t l s)
qed

text \<open>
  C6, as amended. Threshold 10, an empty memtable, \<open>Update("k1", "value1")\<close> and then
  \<open>Update("k2", "value2xx")\<close>, whatever the coin gives for the second tower and whenever
  the first tower has fewer than \<open>maxHeight\<close> levels: the first write leaves 8 bytes
  (2 + 6) in the generation; the rotation test of the second write compares these 8 bytes
  with the threshold, so nothing rotates; afterwards there is one generation, of 18 bytes,
  and \<open>Get("k1")\<close> returns \<open>("value1", true)\<close> from it.
\<close>

theorem second_update_stays_in_first_generation:
  assumes n1: "liftLayers rnd1 < maxHeight"
  shows "SizesAfter 10 [UpdateM ''k1'' (Some ''value1'') rnd1] = ok [8]
       \<and> GenerationsAfter 10 [UpdateM ''k1'' (Some ''value1'') rnd1,
                               UpdateM ''k2'' (Some ''value2xx'') rnd2] = ok 1
       \<and> SizesAfter 10 [UpdateM ''k1'' (Some ''value1'') rnd1,
                         UpdateM ''k2'' (Some ''value2xx'') rnd2] = ok [18]
       \<and> GetAfter 10 [UpdateM ''k1'' (Some ''value1'') rnd1,
                       UpdateM ''k2'' (Some ''value2xx'') rnd2] ''k1'' = ok (Some ''value1'', True)"
proof -
  let ?g0 = "NewSkipList_mt"
  let ?lv0 = "replicate maxHeight ([] :: nat list)"
  let ?n1 = "liftLayers rnd1" and ?n2 = "liftLayers rnd2"
  have r1: "0 < ?n1" using liftLayers_range[of rnd1] by simp
  have r2: "0 < ?n2" using liftLayers_range[of rnd2] by simp
  have h0: "st_head ?g0 = Some 0" "st_tail ?g0 = Some 1" "length (st_nodes ?g0) = 2"
    "st_size ?g0 = 0" "key (st_nodes ?g0 ! 1) = []"
    by (simp_all add: NewSkipList_mt_def)
  have wf0: "wfList (st_nodes ?g0) 0 1 ?lv0"
    by (simp add: wfList_def levelOK_def NewSkipList_mt_def nextOf_def deref_def list_all_iff
        maxHeight_def)
  have top0: "\<forall>x\<in>set (?lv0 ! (maxHeight - 1)). ''k1'' \<le> key (st_nodes ?g0 ! x)"
    by (simp add: maxHeight_def)
  have fresh0: "\<forall>x\<in>set (?lv0 ! 0). key (st_nodes ?g0 ! x) \<noteq> ''k1''"
    by (simp add: maxHeight_def)
  have kt0: "key (st_nodes ?g0 ! 1) \<noteq> ''k1''" using h0 by simp
  have zero0: "st_size ?g0 = 0 \<longrightarrow> ?lv0 ! 0 = []" by (simp add: maxHeight_def)
  from Update_mt_links_new_key[OF wf0 h0(1,2) top0 fresh0 kt0 zero0, of "Some ''value1''" rnd1]
  obtain h1 where
    u1: "Update_mt ?g0 ''k1'' (Some ''value1'') rnd1
           = ok (?g0\<lparr>st_nodes := h1, st_len := st_len ?g0 + 1,
                    st_size := st_size ?g0 + of_nat (length ''k1'' + len_bytes (Some ''value1''))\<rparr>, True)"
    and w1: "wfList h1 0 1 (linked (st_nodes ?g0) ''k1'' ?n1 ?lv0)"
    and len1: "length h1 = Suc (length (st_nodes ?g0))"
    and old1: "\<forall>x<length (st_nodes ?g0). key (h1 ! x) = key (st_nodes ?g0 ! x) \<and> val (h1 ! x) = val (st_nodes ?g0 ! x)"
    and new1: "key (h1 ! length (st_nodes ?g0)) = ''k1'' \<and> val (h1 ! length (st_nodes ?g0)) = Some ''value1''"
    by blast
  define g1 where "g1 = ?g0\<lparr>st_nodes := h1, st_len := st_len ?g0 + 1,
                    st_size := st_size ?g0 + of_nat (length ''k1'' + len_bytes (Some ''value1''))\<rparr>"
  define lv1 where "lv1 = linked (st_nodes ?g0) ''k1'' ?n1 ?lv0"
  have g1: "st_nodes g1 = h1" "st_head g1 = Some 0" "st_tail g1 = Some 1" "st_size g1 = 8"
    by (simp_all add: g1_def h0 len_bytes_def)
  have h1: "length h1 = 3" "key (h1 ! 1) = []" "key (h1 ! 2) = ''k1''" "val (h1 ! 2) = Some ''value1''"
    using len1 old1 new1 h0 by simp_all
  have z: "0 < maxHeight" and m: "maxHeight - 1 < maxHeight" by (simp_all add: maxHeight_def)
  have e0: "?lv0 ! 0 = []" "?lv0 ! (maxHeight - 1) = []" by (simp_all add: maxHeight_def)
  have lv1_0: "lv1 ! 0 = [2]"
    using r1 by (simp add: lv1_def linked_nth[OF z] below_def notBelow_def h0 e0)
  have lv1_top: "lv1 ! (maxHeight - 1) = []"
    unfolding lv1_def linked_nth[OF m] e0 using n1 by simp
  have w1': "wfList (st_nodes g1) 0 1 lv1" using w1 by (simp add: g1 lv1_def)
  have lt: "''k1'' < ''k2''" by simp
  have top1: "\<forall>x\<in>set (lv1 ! (maxHeight - 1)). ''k2'' \<le> key (st_nodes g1 ! x)"
    unfolding lv1_top by simp
  have fresh1: "\<forall>x\<in>set (lv1 ! 0). key (st_nodes g1 ! x) \<noteq> ''k2''"
    by (simp add: lv1_0 g1 h1)
  have kt1: "key (st_nodes g1 ! 1) \<noteq> ''k2''" using h1(2) by (simp add: g1)
  have zero1: "st_size g1 = 0 \<longrightarrow> lv1 ! 0 = []" by (simp add: g1)
  from Update_mt_links_new_key[OF w1' g1(2,3) top1 fresh1 kt1 zero1, of "Some ''value2xx''" rnd2]
  obtain h2 where
    u2: "Update_mt g1 ''k2'' (Some ''value2xx'') rnd2
           = ok (g1\<lparr>st_nodes := h2, st_len := st_len g1 + 1,
                    st_size := st_size g1 + of_nat (length ''k2'' + len_bytes (Some ''value2xx''))\<rparr>, True)"
    and w2: "wfList h2 0 1 (linked (st_nodes g1) ''k2'' ?n2 lv1)"
    and len2: "length h2 = Suc (length (st_nodes g1))"
    and old2: "\<forall>x<length (st_nodes g1). key (h2 ! x) = key (st_nodes g1 ! x) \<and> val (h2 ! x) = val (st_nodes g1 ! x)"
    and new2: "key (h2 ! length (st_nodes g1)) = ''k2'' \<and> val (h2 ! length (st_nodes g1)) = Some ''value2xx''"
    by blast
  define g2 where "g2 = g1\<lparr>st_nodes := h2, st_len := st_len g1 + 1,
                    st_size := st_size g1 + of_nat (length ''k2'' + len_bytes (Some ''value2xx''))\<rparr>"
  define lv2 where "lv2 = linked (st_nodes g1) ''k2'' ?n2 lv1"
  have g2: "st_nodes g2 = h2" "st_head g2 = Some 0" "st_tail g2 = Some 1" "st_size g2 = 18"
    by (simp_all add: g2_def g1 len_bytes_def)
  have h2: "key (h2 ! 2) = ''k1''" "val (h2 ! 2) = Some ''value1''" "key (h2 ! 3) = ''k2''"
    using len2 old2 new2 g1 h1 by simp_all
  have lv2_0: "lv2 ! 0 = [2, 3]"
    using r2 lt by (simp add: lv2_def linked_nth[OF z] below_def notBelow_def g1 h1 lv1_0)
  have lv2_top: "set (lv2 ! (maxHeight - 1)) \<subseteq> {3}"
    unfolding lv2_def linked_nth[OF m] lv1_top by (auto simp: below_def notBelow_def g1 h1)
  have w2': "wfList (st_nodes g2) 0 1 lv2" using w2 by (simp add: g2 lv2_def)
  have top2: "\<forall>x\<in>set (lv2 ! (maxHeight - 1)). ''k1'' \<le> key (st_nodes g2 ! x)"
    using lv2_top h2 by (auto simp: g2)
  have nz2: "st_size g2 \<noteq> 0" by (simp add: g2)
  have s2: "succAt (st_nodes g2) 1 ''k1'' (lv2 ! 0) = 2"
    by (simp add: succAt_def notBelow_def lv2_0 g2 h2)
  from Get_wf[OF w2' g2(2,3) top2 nz2]
  have ge: "Get g2 ''k1'' = ok (if key (st_nodes g2 ! succAt (st_nodes g2) 1 ''k1'' (lv2 ! 0)) = ''k1''
                                then Some (succAt (st_nodes g2) 1 ''k1'' (lv2 ! 0)) else None)"
    by blast
  have get: "Get g2 ''k1'' = ok (Some 2)"
    unfolding ge s2 by (simp add: g2 h2)
  have v2: "valOf h2 (Some 2) = Inr (Some ''value1'')"
    using len2 by (simp add: valOf_def deref_def g2 g1 h1 h2)
  have step1: "runMCall 10 NewMemtable (UpdateM ''k1'' (Some ''value1'') rnd1) = ok \<lparr>skiplists = [g1]\<rparr>"
    by (simp add: Update_thr_def writeNewest_def rotate_def newSkiplist_def NewMemtable_def u1
        g1_def)
  have rot: "rotate 10 \<lparr>skiplists = [g1]\<rparr> = \<lparr>skiplists = [g1]\<rparr>"
    by (simp add: rotate_def GetSize_mt_def g1)
  have step2: "runMCall 10 \<lparr>skiplists = [g1]\<rparr> (UpdateM ''k2'' (Some ''value2xx'') rnd2)
                 = ok \<lparr>skiplists = [g2]\<rparr>"
    by (simp add: Update_thr_def writeNewest_def rot u2 g2_def)
  have run1: "runMCalls 10 NewMemtable [UpdateM ''k1'' (Some ''value1'') rnd1] = ok \<lparr>skiplists = [g1]\<rparr>"
    by (simp only: runMCalls.simps step1 bindR_simps)
  have run2: "runMCalls 10 NewMemtable [UpdateM ''k1'' (Some ''value1'') rnd1,
                UpdateM ''k2'' (Some ''value2xx'') rnd2] = ok \<lparr>skiplists = [g2]\<rparr>"
    by (simp only: runMCalls.simps step1 step2 bindR_simps)
  show ?thesis
    unfolding SizesAfter_def GenerationsAfter_def GetAfter_def run1 run2
    by (simp add: GetSize_mt_def g1 g2 Get_memtable_def get v2)
qed

text \<open>The theorem at work: three levels for \<open>k1\<close>, the full tower for \<open>k2\<close>.\<close>

theorem second_update_witness:
  "liftLayers (headsThenTails 2) < maxHeight
   \<and> SizesAfter 10 [UpdateM ''k1'' (Some ''value1'') (headsThenTails 2)] = ok [8]
   \<and> GenerationsAfter 10 [UpdateM ''k1'' (Some ''value1'') (headsThenTails 2),
                           UpdateM ''k2'' (Some ''value2xx'') allHeads] = ok 1
   \<and> SizesAfter 10 [UpdateM ''k1'' (Some ''value1'') (headsThenTails 2),
                     UpdateM ''k2'' (Some ''value2xx'') allHeads] = ok [18]
   \<and> GetAfter 10 [UpdateM ''k1'' (Some ''value1'') (headsThenTails 2),
                   UpdateM ''k2'' (Some ''value2xx'') allHeads] ''k1'' = ok (Some ''value1'', True)"
proof -
  have h: "liftLayers (headsThenTails 2) < maxHeight" by code_simp
  show ?thesis
    using second_update_stays_in_first_generation[OF h, of allHeads] h by simp
qed

text \<open>
  C6, as the claim states it: the second write would rotate and leave two generations.
  With towers of height 1 the count after the two writes is 1, and the first write has
  left 8 bytes, which is below the threshold.
\<close>

theorem second_update_does_not_rotate:
  "GenerationsAfter 10 [UpdateM ''k1'' (Some ''value1'') allTails,
                        UpdateM ''k2'' (Some ''value2xx'') allTails] = ok 1
   \<and> GenerationsAfter 10 [UpdateM ''k1'' (Some ''value1'') allTails,
                          UpdateM ''k2'' (Some ''value2xx'') allTails] \<noteq> ok 2
   \<and> SizesAfter 10 [UpdateM ''k1'' (Some ''value1'') allTails] = ok [8]"
  by code_simp

text \<open>It is the third write that finds 18 bytes and opens the second generation; \<open>k1\<close> is
  then served from the older one.\<close>

lemma third_update_rotates:
  "GenerationsAfter 10 [UpdateM ''k1'' (Some ''value1'') allTails,
                        UpdateM ''k2'' (Some ''value2xx'') allTails,
                        UpdateM ''k3'' (Some ''v'') allTails] = ok 2
   \<and> GetAfter 10 [UpdateM ''k1'' (Some ''value1'') allTails,
                   UpdateM ''k2'' (Some ''value2xx'') allTails,
                   UpdateM ''k3'' (Some ''v'') allTails] ''k1'' = ok (Some ''value1'', True)"
  by code_simp

text \<open>When the coin gives \<open>k1\<close> the full tower, the search for \<open>k2\<close> stops in front of it,
  \<open>k2\<close> is linked before \<open>k1\<close>, and \<open>k1\<close> is no longer found.\<close>

lemma full_height_first_key_is_lost:
  "GetAfter 10 [UpdateM ''k1'' (Some ''value1'') allHeads,
                UpdateM ''k2'' (Some ''value2xx'') allTails] ''k1'' = ok (None, False)"
  by code_simp

section \<open>The node page codec\<close>

subsection \<open>Reading little-endian fields and slices\<close>

lemma decode_u16: "ucast (ucast w :: byte) OR push_bit 8 (ucast (ucast (drop_bit 8 w) :: byte)) = (w :: 16 word)"
  by (rule bit_word_eqI) (auto simp: bit_simps)

lemma u16_unat: "n < 65536 \<Longrightarrow> unat (of_nat n :: 16 word) = n"
  by (simp add: unat_of_nat)

lemma length_u16le [simp]: "length (u16le w) = 2"
  by (simp add: u16le_def)

lemma read16:
  assumes "arr = xs @ u16le w @ ys" "2 \<le> n" "p = length xs"
  shows "Uint16 \<lparr>s_arr = arr, s_off = p, s_len = n\<rparr> = Inr w"
  using assms by (simp add: Uint16_def byteAt_def u16le_def nth_append decode_u16)

lemma length_encodeKV: "length (encodeKV kv) = 4 + length (fst kv) + length (snd kv)"
  by (simp add: encodeKV_def)

lemma length_kvOffsetsFrom [simp]: "length (kvOffsetsFrom off kvs) = length kvs"
  by (induction kvs arbitrary: off) auto

lemma kvOffsetsFrom_nth:
  "i < length kvs \<Longrightarrow> kvOffsetsFrom off kvs ! i = off + length (concat (map encodeKV (take i kvs)))"
proof (induction kvs arbitrary: off i)
  case Nil
  then show ?case by simp
next
  case (Cons kv kvs)
  then show ?case by (cases i) auto
qed

lemma concat_split:
  assumes "i < length xs"
  shows "concat (map f xs) = concat (map f (take i xs)) @ f (xs ! i) @ concat (map f (drop (Suc i) xs))"
proof -
  have "xs = take i xs @ xs ! i # drop (Suc i) xs" using assms by (rule id_take_nth_drop)
  then have "concat (map f xs) = concat (map f (take i xs @ xs ! i # drop (Suc i) xs))" by simp
  then show ?thesis by simp
qed

lemma length_concat_fixed:
  assumes "\<And>x. length (f x) = c"
  shows "length (concat (map f xs)) = c * length xs"
  using assms by (induction xs) auto

lemma length_table: "length (concat (map (\<lambda>off. u16le (of_nat off)) offs)) = 2 * length offs"
  by (rule length_concat_fixed) simp

lemma length_pairs_take:
  "i \<le> length kvs \<Longrightarrow> length (concat (map encodeKV (take i kvs))) \<le> length (concat (map encodeKV kvs))"
proof -
  assume "i \<le> length kvs"
  have "concat (map encodeKV kvs) = concat (map encodeKV (take i kvs)) @ concat (map encodeKV (drop i kvs))"
    by (metis append_take_drop_id concat_append map_append)
  then show ?thesis by simp
qed


lemma unat_times2:
  assumes "2 * n < 65536"
  shows "unat ((of_nat n :: 16 word) * 2) = 2 * n"
proof -
  have e: "(of_nat n :: 16 word) * 2 = of_nat (2 * n)" by simp
  show ?thesis unfolding e using assms by (rule u16_unat)
qed

lemma unat_4plus:
  assumes "4 + a < 65536"
  shows "unat ((4 :: 16 word) + of_nat a) = 4 + a"
proof -
  have e: "(4 :: 16 word) + of_nat a = of_nat (4 + a)" by simp
  show ?thesis unfolding e using assms by (rule u16_unat)
qed

lemma unat_sum4:
  assumes "4 + a + b < 65536"
  shows "unat ((4 :: 16 word) + of_nat a + of_nat b) = 4 + a + b"
proof -
  have e: "(4 :: 16 word) + of_nat a + of_nat b = of_nat (4 + a + b)" by simp
  show ?thesis unfolding e using assms by (rule u16_unat)
qed

lemma unat_minus8:
  assumes "8 \<le> n" "n < 65536"
  shows "unat ((of_nat n :: 16 word) - 8) = n - 8"
proof -
  have e: "(of_nat n :: 16 word) - 8 = of_nat (n - 8)" using assms(1) by (simp add: of_nat_diff)
  show ?thesis unfolding e using assms(2) by (intro u16_unat) simp
qed

lemma getSlice_at:
  assumes "unat a + unat n < 65536" "p + unat a + unat n \<le> length arr"
  shows "getSlice \<lparr>s_arr = arr, s_off = p, s_len = m\<rparr> a n
           = Inr \<lparr>s_arr = arr, s_off = p + unat a, s_len = unat n\<rparr>"
proof -
  have "unat (a + n) = unat a + unat n"
    using assms(1) unat_add_lem[of a n] by simp
  then show ?thesis using assms(2) by (simp add: getSlice_def reslice_def cap_def)
qed

text \<open>
  C7, as amended. A leaf page laid out as the format says (8-byte header, offset table,
  packed pairs), in a buffer that may be longer than the bytes used, with at most 4096
  bytes used: the offsets are non-decreasing, the header carries the number of pairs and
  the number of bytes used, and \<open>getKV(i)\<close> returns, for each \<open>i\<close> below the count, slices
  that show the bytes of the \<open>i\<close>-th key and of the \<open>i\<close>-th value. For the pairs
  \<open>("alpha", "1")\<close>, \<open>("beta", "22")\<close> the count is 2 and the size is 32.
\<close>

theorem leaf_page_round_trip:
  assumes fit: "length (encodeLeaf kvs) \<le> 4096" and i: "i < length kvs"
  shows "getCount (mkSlice (encodeLeaf kvs @ pad)) = Inr (of_nat (length kvs))
       \<and> getSize (mkSlice (encodeLeaf kvs @ pad)) = Inr (of_nat (length (encodeLeaf kvs)))
       \<and> sorted (kvOffsetsFrom 0 kvs)
       \<and> (\<exists>ks vs. getKV (mkSlice (encodeLeaf kvs @ pad)) (of_nat i) = Inr (ks, vs)
             \<and> bytes ks = fst (kvs ! i) \<and> bytes vs = snd (kvs ! i))"
proof -
  define N where "N = length kvs"
  define T where "T = concat (map (\<lambda>off. u16le (of_nat off)) (kvOffsetsFrom 0 kvs))"
  define PR where "PR = concat (map encodeKV kvs)"
  define S where "S = 8 + 2 * N + length PR"
  define page where "page = encodeLeaf kvs @ pad"
  define kb where "kb = fst (kvs ! i)"
  define vb where "vb = snd (kvs ! i)"
  define PRE where "PRE = concat (map encodeKV (take i kvs))"
  define POST where "POST = concat (map encodeKV (drop (Suc i) kvs))"
  define T1 where "T1 = concat (map (\<lambda>off. u16le (of_nat off)) (take i (kvOffsetsFrom 0 kvs)))"
  define T2 where "T2 = concat (map (\<lambda>off. u16le (of_nat off)) (drop (Suc i) (kvOffsetsFrom 0 kvs)))"
  define hdr where "hdr = u16le (ucast leaf) @ u16le (of_nat N) @ u16le (of_nat S) @ [0, 0 :: byte]"
  define P where "P = 8 + 2 * N + length PRE"
  define nd where "nd = mkSlice page"
  have lT: "length T = 2 * N" by (simp add: T_def N_def length_table)
  have lbody: "8 + length (leafBody kvs) = S"
    using lT by (simp add: leafBody_def S_def T_def PR_def)
  have enc: "encodeLeaf kvs = hdr @ T @ PR"
    unfolding encodeLeaf_def lbody by (simp add: leafBody_def hdr_def T_def PR_def N_def)
  have lhdr: "length hdr = 8" by (simp add: hdr_def)
  have lenc: "length (encodeLeaf kvs) = S" by (simp add: enc lhdr lT S_def)
  have S: "S \<le> 4096" using fit lenc by simp
  have pg: "page = hdr @ T @ PR @ pad" by (simp add: page_def enc)
  have lpage: "S \<le> length page" by (simp add: pg lhdr lT S_def)
  have PRs: "PR = PRE @ encodeKV (kvs ! i) @ POST"
    unfolding PR_def PRE_def POST_def using i by (rule concat_split)
  have lkv: "length (encodeKV (kvs ! i)) = 4 + length kb + length vb"
    by (simp add: length_encodeKV kb_def vb_def)
  have ekv: "encodeKV (kvs ! i) = u16le (of_nat (length kb)) @ u16le (of_nat (length vb)) @ kb @ vb"
    by (simp add: encodeKV_def kb_def vb_def)
  have oi: "kvOffsetsFrom 0 kvs ! i = length PRE"
    using kvOffsetsFrom_nth[OF i, of 0] by (simp add: PRE_def)
  have Ts: "T = T1 @ u16le (of_nat (length PRE)) @ T2"
    unfolding T_def T1_def T2_def using concat_split[of i "kvOffsetsFrom 0 kvs" "\<lambda>off. u16le (of_nat off)"] i oi
    by simp
  have lT1: "length T1 = 2 * i"
    using i by (simp add: T1_def length_table)
  have lPR: "length PR = length PRE + 4 + length kb + length vb + length POST"
    by (simp add: PRs lkv)
  have iN: "i < N" using i by (simp add: N_def)
  have bounds: "P + 4 + length kb + length vb \<le> S" "2 * N + 8 \<le> S" "length PRE \<le> length PR"
    by (simp_all add: P_def S_def lPR)
  have capnd: "cap nd = length page" "s_arr nd = page" "s_off nd = 0" "s_len nd = length page"
    by (simp_all add: nd_def mkSlice_def cap_def)

  \<comment> \<open>the slices that the accessor goes through\<close>
  define s0 where "s0 = \<lparr>s_arr = page, s_off = 0, s_len = 2\<rparr>"
  define s2 where "s2 = \<lparr>s_arr = page, s_off = 2, s_len = 2\<rparr>"
  define s4 where "s4 = \<lparr>s_arr = page, s_off = 4, s_len = 2\<rparr>"
  define data where "data = \<lparr>s_arr = page, s_off = 8, s_len = S - 8\<rparr>"
  define tab where "tab = \<lparr>s_arr = page, s_off = 8, s_len = 2 * N\<rparr>"
  define slot where "slot = \<lparr>s_arr = page, s_off = 8 + 2 * i, s_len = 2\<rparr>"
  define pairs where "pairs = \<lparr>s_arr = page, s_off = 8 + 2 * N, s_len = S - 8 - 2 * N\<rparr>"
  define pair where "pair = \<lparr>s_arr = page, s_off = P, s_len = S - P\<rparr>"
  define pk where "pk = \<lparr>s_arr = page, s_off = P, s_len = 2\<rparr>"
  define pv where "pv = \<lparr>s_arr = page, s_off = P + 2, s_len = 2\<rparr>"
  define kvw where "kvw = \<lparr>s_arr = page, s_off = P, s_len = 4 + length kb + length vb\<rparr>"
  define ks where "ks = \<lparr>s_arr = page, s_off = P + 4, s_len = length kb\<rparr>"
  define vs where "vs = \<lparr>s_arr = page, s_off = P + 4 + length kb, s_len = length vb\<rparr>"
  have ndr: "nd = \<lparr>s_arr = page, s_off = 0, s_len = length page\<rparr>"
    by (simp add: nd_def mkSlice_def)

  \<comment> \<open>the header\<close>
  have g02: "getSlice nd 0 2 = Inr s0"
    unfolding ndr s0_def using lpage bounds by (subst getSlice_at) simp_all
  have g22: "getSlice nd 2 2 = Inr s2"
    unfolding ndr s2_def using lpage bounds by (subst getSlice_at) simp_all
  have g42: "getSlice nd 4 2 = Inr s4"
    unfolding ndr s4_def using lpage bounds by (subst getSlice_at) simp_all
  have rt: "Uint16 s0 = Inr (ucast leaf)"
    unfolding s0_def
    by (rule read16[of page "[]" _ "u16le (of_nat N) @ u16le (of_nat S) @ [0, 0] @ T @ PR @ pad"])
       (simp_all add: pg hdr_def)
  have rc: "Uint16 s2 = Inr (of_nat N)"
    unfolding s2_def
    by (rule read16[of page "u16le (ucast leaf)" _ "u16le (of_nat S) @ [0, 0] @ T @ PR @ pad"])
       (simp_all add: pg hdr_def)
  have rs: "Uint16 s4 = Inr (of_nat S)"
    unfolding s4_def
    by (rule read16[of page "u16le (ucast leaf) @ u16le (of_nat N)" _ "[0, 0] @ T @ PR @ pad"])
       (simp_all add: pg hdr_def)
  have ty: "getType nd = Inr leaf"
    by (simp add: getType_def bindE_def g02 rt leaf_def)
  have cn: "getCount nd = Inr (of_nat N)"
    by (simp add: getCount_def bindE_def g22 rc)
  have sz: "getSize nd = Inr (of_nat S)"
    by (simp add: getSize_def bindE_def g42 rs)
  have uS8: "unat ((of_nat S :: 16 word) - 8) = S - 8"
    by (rule unat_minus8) (use bounds S in simp_all)
  have "getSlice nd 8 (of_nat S - 8) = Inr \<lparr>s_arr = page, s_off = 0 + unat (8 :: 16 word), s_len = unat ((of_nat S :: 16 word) - 8)\<rparr>"
    unfolding ndr by (rule getSlice_at) (use lpage bounds S in \<open>simp_all add: uS8\<close>)
  then have gd: "getSlice nd 8 (of_nat S - 8) = Inr data"
    by (simp add: uS8 data_def)
  have dt: "getData nd = Inr data"
    by (simp add: getData_def bindE_def sz gd)

  \<comment> \<open>the offset table\<close>
  have N2: "unat ((of_nat N :: 16 word) * 2) = 2 * N"
    by (rule unat_times2) (use bounds S in simp)
  have ko: "sliceTo data (2 * N) = Inr tab"
    using lpage bounds by (auto simp: sliceTo_def reslice_def cap_def data_def tab_def)
  have ui2: "unat ((of_nat i :: 16 word) * 2) = 2 * i"
    by (rule unat_times2) (use iN bounds S in simp)
  have "getSlice tab (of_nat i * 2) 2 = Inr \<lparr>s_arr = page, s_off = 8 + unat ((of_nat i :: 16 word) * 2), s_len = unat (2 :: 16 word)\<rparr>"
    unfolding tab_def by (rule getSlice_at) (use lpage bounds iN S in \<open>simp_all add: ui2\<close>)
  then have gi: "getSlice tab (of_nat i * 2) 2 = Inr slot"
    by (simp add: ui2 slot_def)
  have off: "Uint16 slot = Inr (of_nat (length PRE))"
    unfolding slot_def
    by (rule read16[of page "hdr @ T1" _ "T2 @ PR @ pad"]) (simp_all add: pg Ts lhdr lT1)
  have uo: "unat (of_nat (length PRE) :: 16 word) = length PRE"
    by (rule u16_unat) (use bounds S in \<open>simp add: S_def\<close>)

  \<comment> \<open>the pair\<close>
  have kp: "sliceFrom data (2 * N) = Inr pairs"
    using lpage bounds by (auto simp: sliceFrom_def reslice_def cap_def data_def pairs_def)
  have kp2: "sliceFrom pairs (length PRE) = Inr pair"
    using lpage bounds by (auto simp: sliceFrom_def reslice_def cap_def P_def S_def pairs_def pair_def)
  have p02: "getSlice pair 0 2 = Inr pk"
    unfolding pair_def pk_def using lpage bounds by (subst getSlice_at) simp_all
  have p22: "getSlice pair 2 2 = Inr pv"
    unfolding pair_def pv_def using lpage bounds by (subst getSlice_at) simp_all
  have at_pair: "page = (hdr @ T @ PRE) @ u16le (of_nat (length kb)) @ u16le (of_nat (length vb)) @ kb @ vb @ POST @ pad"
    by (simp add: pg PRs ekv)
  have lpre: "length (hdr @ T @ PRE) = P" by (simp add: lhdr lT P_def)
  have kl: "Uint16 pk = Inr (of_nat (length kb))"
    unfolding pk_def
    by (rule read16[of page "hdr @ T @ PRE" _ "u16le (of_nat (length vb)) @ kb @ vb @ POST @ pad"])
       (simp_all add: at_pair lpre[simplified])
  have vl: "Uint16 pv = Inr (of_nat (length vb))"
    unfolding pv_def
    by (rule read16[of page "(hdr @ T @ PRE) @ u16le (of_nat (length kb))" _ "kb @ vb @ POST @ pad"])
       (simp_all add: at_pair lpre[simplified])
  have utot: "unat ((4 :: 16 word) + of_nat (length kb) + of_nat (length vb)) = 4 + length kb + length vb"
    by (rule unat_sum4) (use bounds S in simp)
  have "getSlice pair 0 (4 + of_nat (length kb) + of_nat (length vb))
          = Inr \<lparr>s_arr = page, s_off = P + unat (0 :: 16 word),
                 s_len = unat ((4 :: 16 word) + of_nat (length kb) + of_nat (length vb))\<rparr>"
    unfolding pair_def by (rule getSlice_at) (use lpage bounds S in \<open>simp_all add: utot\<close>)
  then have pw: "getSlice pair 0 (4 + of_nat (length kb) + of_nat (length vb)) = Inr kvw"
    by (simp add: utot kvw_def)
  have ukb: "unat (of_nat (length kb) :: 16 word) = length kb"
    by (rule u16_unat) (use bounds S in simp)
  have uvb: "unat (of_nat (length vb) :: 16 word) = length vb"
    by (rule u16_unat) (use bounds S in simp)
  have "getSlice kvw 4 (of_nat (length kb))
          = Inr \<lparr>s_arr = page, s_off = P + unat (4 :: 16 word), s_len = unat (of_nat (length kb) :: 16 word)\<rparr>"
    unfolding kvw_def by (rule getSlice_at) (use lpage bounds S in \<open>simp_all add: ukb\<close>)
  then have gk: "getSlice kvw 4 (of_nat (length kb)) = Inr ks"
    by (simp add: ukb ks_def)
  have uk4: "unat ((4 :: 16 word) + of_nat (length kb)) = 4 + length kb"
    by (rule unat_4plus) (use bounds S in simp)
  have "getSlice kvw (4 + of_nat (length kb)) (of_nat (length vb))
          = Inr \<lparr>s_arr = page, s_off = P + unat ((4 :: 16 word) + of_nat (length kb)),
                 s_len = unat (of_nat (length vb) :: 16 word)\<rparr>"
    unfolding kvw_def by (rule getSlice_at) (use lpage bounds S in \<open>simp_all add: uk4 uvb\<close>)
  then have gv: "getSlice kvw (4 + of_nat (length kb)) (of_nat (length vb)) = Inr vs"
    by (simp add: uk4 uvb add.assoc vs_def)
  have idx: "\<not> (of_nat N :: 16 word) \<le> of_nat i"
    using iN bounds S u16_unat[of N] u16_unat[of i] by (simp add: word_le_nat_alt)
  have kv: "getKV nd (of_nat i) = Inr (ks, vs)"
    by (simp add: getKV_def bindE_def checkType_def checkIdx_def ty cn idx dt N2 ko gi off uo kp kp2
          p02 p22 kl vl pw gk gv)
  have bk: "bytes ks = kb"
  proof -
    have "page = ((hdr @ T @ PRE) @ u16le (of_nat (length kb)) @ u16le (of_nat (length vb))) @ kb @ vb @ POST @ pad"
      by (simp add: at_pair)
    moreover have "length ((hdr @ T @ PRE) @ u16le (of_nat (length kb)) @ u16le (of_nat (length vb))) = P + 4"
      using lpre by simp
    ultimately show ?thesis by (simp add: bytes_def ks_def)
  qed
  have bv: "bytes vs = vb"
  proof -
    have "page = ((hdr @ T @ PRE) @ u16le (of_nat (length kb)) @ u16le (of_nat (length vb)) @ kb) @ vb @ POST @ pad"
      by (simp add: at_pair)
    moreover have "length ((hdr @ T @ PRE) @ u16le (of_nat (length kb)) @ u16le (of_nat (length vb)) @ kb) = P + 4 + length kb"
      using lpre by simp
    ultimately show ?thesis by (simp add: bytes_def vs_def)
  qed
  have srt: "sorted (kvOffsetsFrom 0 kvs)"
  proof -
    have "sorted (kvOffsetsFrom off kvs) \<and> (\<forall>x\<in>set (kvOffsetsFrom off kvs). off \<le> x)" for off
    proof (induction kvs arbitrary: off)
      case Nil
      show ?case by simp
    next
      case (Cons kv kvs)
      from Cons[of "off + length (encodeKV kv)"] show ?case by fastforce
    qed
    then show ?thesis by blast
  qed
  show ?thesis
    using cn sz srt kv bk bv
    by (simp add: nd_def page_def N_def lenc kb_def vb_def)
qed

text \<open>
  The witness: the example page, followed by unused bytes; both pairs come back.
\<close>

theorem leaf_page_round_trip_witness:
  "getCount (mkSlice (encodeLeaf examplePairs @ replicate 8 0)) = Inr 2
   \<and> getSize (mkSlice (encodeLeaf examplePairs @ replicate 8 0)) = Inr 32
   \<and> kvBytes (getKV (mkSlice (encodeLeaf examplePairs @ replicate 8 0)) 0) = Inr (ascii ''alpha'', ascii ''1'')
   \<and> kvBytes (getKV (mkSlice (encodeLeaf examplePairs @ replicate 8 0)) 1) = Inr (ascii ''beta'', ascii ''22'')"
proof -
  have fit: "length (encodeLeaf examplePairs) \<le> 4096" by code_simp
  have l: "length (encodeLeaf examplePairs) = 32" "length examplePairs = 2"
    "examplePairs ! 0 = (ascii ''alpha'', ascii ''1'')" "examplePairs ! Suc 0 = (ascii ''beta'', ascii ''22'')"
    by code_simp+
  have i0: "0 < length examplePairs" and i1: "1 < length examplePairs" by (simp_all add: l)
  from leaf_page_round_trip[OF fit i0, of "replicate 8 0"] leaf_page_round_trip[OF fit i1, of "replicate 8 0"]
  show ?thesis
    by (auto simp: l kvBytes_def)
qed

text \<open>
  C7, as the claim states it: the size of the example page would be 31. The layout gives
  8 bytes of header, 2 offsets of 2 bytes, and two pairs of 4 + 5 + 1 and 4 + 4 + 2
  bytes: 32.
\<close>

theorem leaf_example_size_is_not_31:
  "length (encodeLeaf examplePairs) = 32
   \<and> getSize (mkSlice (encodeLeaf examplePairs)) = Inr 32
   \<and> getSize (mkSlice (encodeLeaf examplePairs)) \<noteq> Inr 31"
  by code_simp

subsection \<open>The checks of the typed and indexed accessors\<close>

text \<open>
  In btree.go every accessor runs \<open>checkType\<close> and then \<open>checkIdx\<close>: on a page of the
  other type it panics with the type mismatch message, and on a page of its own type
  with \<open>idx \<ge> count\<close> it panics with the message that carries the index and the count.
\<close>

lemma accessors_wrong_type:
  assumes "getType nd = Inr t"
  shows "t \<noteq> internal \<Longrightarrow> getChildPtr nd idx = Inl (Panic (panicTypeMismatchMsg internal t))"
    and "t \<noteq> internal \<Longrightarrow> setChildPtr nd idx p = Inl (Panic (panicTypeMismatchMsg internal t))"
    and "t \<noteq> leaf \<Longrightarrow> getKV nd idx = Inl (Panic (panicTypeMismatchMsg leaf t))"
  using assms by (simp_all add: getChildPtr_def setChildPtr_def getKV_def checkType_def bindE_def)

lemma accessors_index_out_of_bound:
  assumes "getCount nd = Inr count" and "count \<le> idx"
  shows "getType nd = Inr internal \<Longrightarrow> getChildPtr nd idx = Inl (Panic (panicOutOfBoundMsg idx count))"
    and "getType nd = Inr internal \<Longrightarrow> setChildPtr nd idx p = Inl (Panic (panicOutOfBoundMsg idx count))"
    and "getType nd = Inr leaf \<Longrightarrow> getKV nd idx = Inl (Panic (panicOutOfBoundMsg idx count))"
  using assms
  by (simp_all add: getChildPtr_def setChildPtr_def getKV_def checkType_def checkIdx_def bindE_def)

lemma accessors_example:
  "getChildPtr (mkSlice [0, 0, 2, 0, 24, 0, 0, 0, 1, 0, 0, 0, 0, 0, 0, 0, 2, 0, 0, 0, 0, 0, 0, 0]) 5
     = Inl (Panic ''index 5 out of bound 2'')
   \<and> getChildPtr (mkSlice [1, 0, 2, 0, 24, 0, 0, 0, 1, 0, 0, 0, 0, 0, 0, 0, 2, 0, 0, 0, 0, 0, 0, 0]) 0
     = Inl (Panic ''expected INTERNAL but got LEAF'')
   \<and> getKV (mkSlice [0, 0, 2, 0, 24, 0, 0, 0, 1, 0, 0, 0, 0, 0, 0, 0, 2, 0, 0, 0, 0, 0, 0, 0]) 0
     = Inl (Panic ''expected LEAF but got INTERNAL'')"
  by code_simp

text \<open>
  C8. The claim: an accessor called on a page of the wrong type fails with the type
  mismatch, \<open>getKV\<close> on an internal node among them. The \<open>getKV\<close> of the other copy of the
  package calls \<open>checkType(internal)\<close>: on an internal node with one entry it passes both
  checks and returns two (empty) slices, and it is on a leaf that it panics with the
  type mismatch.
\<close>

theorem getKV_v0_accepts_internal_node:
  "kvBytes (getKV_v0 (mkSlice [0, 0, 1, 0, 0, 0, 0, 0, 0, 0, 0, 0]) 0) = Inr ([], [])
   \<and> getKV_v0 (mkSlice [1, 0, 1, 0, 0, 0, 0, 0, 0, 0, 0, 0]) 0
       = Inl (Panic ''mismatch between type LEAF and type INTERNAL'')"
  by code_simp

end
